theory Spec2Isabelle
  imports Complex_Main
begin

section \<open>Machine integers and C strings\<close>

text \<open>
  The program is C for an LP64 platform: \<open>long\<close> has 64 bits, \<open>int\<close> has 32 bits and
  plain \<open>char\<close> is signed. Values of both integer types are modelled as \<open>int\<close>, with the
  two's complement wrap-around written out at every arithmetic operation of the source
  (signed overflow is undefined in C; the wrap-around is what the usual compilers
  produce). A byte is a \<open>char\<close> of HOL, which has exactly the values 0 to 255.
\<close>

definition wrap_long :: "int \<Rightarrow> int" where
  "wrap_long x = (x + 2 ^ 63) mod 2 ^ 64 - 2 ^ 63"

definition wrap_int :: "int \<Rightarrow> int" where
  "wrap_int x = (x + 2 ^ 31) mod 2 ^ 32 - 2 ^ 31"

text \<open>The division of C truncates towards zero.\<close>

definition c_div :: "int \<Rightarrow> int \<Rightarrow> int" where
  "c_div a b = sgn a * sgn b * (\<bar>a\<bar> div \<bar>b\<bar>)"

text \<open>The value of a (signed) \<open>char\<close> after promotion to \<open>int\<close>.\<close>

definition char_value :: "char \<Rightarrow> int" where
  "char_value c = (if (of_char c :: int) < 128 then of_char c else of_char c - 256)"

abbreviation NUL :: char where
  "NUL \<equiv> CHR 0x00"

text \<open>
  A pointer into an object is the list of the bytes from the pointer to the end of the
  object. A C string is read from such a pointer up to the first NUL; the end of the list
  reads as the terminator, which is how string literals and the command line's strings are
  written here (without their NUL). For the pointers into the block buffer,
  \<open>header_strings_terminated\<close> below shows that the strings the walk uses after the magic
  check end inside the buffer.
\<close>

definition c_str :: "string \<Rightarrow> string" where
  "c_str p = takeWhile (\<lambda>c. c \<noteq> NUL) p"

definition strlen :: "string \<Rightarrow> nat" where
  "strlen p = length (c_str p)"

fun strcmp :: "string \<Rightarrow> string \<Rightarrow> int" where
  "strcmp [] [] = 0"
| "strcmp [] (b # bs) = - of_char b"
| "strcmp (a # as) [] = of_char a"
| "strcmp (a # as) (b # bs) =
     (if a \<noteq> b then of_char a - of_char b
      else if a = NUL then 0
      else strcmp as bs)"

section \<open>Constants and the header layout\<close>

definition BLOCK_SIZE :: int where
  "BLOCK_SIZE = 512"

definition MAGIC :: string where
  "MAGIC = ''ustar  ''"

definition REG_FILE :: string where
  "REG_FILE = ''0''"

text \<open>
  \<open>struct Header\<close> is laid over the block buffer. A field is its offset and its declared
  length; \<open>header->field\<close>, used as a string, is the pointer \<open>field_ptr\<close>, which does not
  stop at the declared length.
\<close>

definition field_ptr :: "nat \<Rightarrow> string \<Rightarrow> string" where
  "field_ptr off buffer = drop off buffer"

definition field :: "nat \<Rightarrow> nat \<Rightarrow> string \<Rightarrow> string" where
  "field off len buffer = take len (drop off buffer)"

definition hdr_name :: "string \<Rightarrow> string" where
  "hdr_name buffer = field_ptr 0 buffer"

definition hdr_size :: "string \<Rightarrow> string" where
  "hdr_size buffer = field_ptr 124 buffer"

definition hdr_typeflag :: "string \<Rightarrow> string" where
  "hdr_typeflag buffer = field_ptr 156 buffer"

definition hdr_magic :: "string \<Rightarrow> string" where
  "hdr_magic buffer = field_ptr 257 buffer"

definition size_field :: "string \<Rightarrow> string" where
  "size_field buffer = field 124 12 buffer"

definition typeflag_field :: "string \<Rightarrow> string" where
  "typeflag_field buffer = field 156 1 buffer"

definition linkname_field :: "string \<Rightarrow> string" where
  "linkname_field buffer = field 157 100 buffer"

definition magic_field :: "string \<Rightarrow> string" where
  "magic_field buffer = field 257 6 buffer"

definition version_field :: "string \<Rightarrow> string" where
  "version_field buffer = field 263 2 buffer"

section \<open>The octal decoder\<close>

text \<open>
  \<open>oct2dec\<close> walks the string from its last character to its first. The loop counter of
  the model is the number of characters still to do, one more than the index \<open>i\<close> of the
  source.
\<close>

fun oct2dec_loop :: "string \<Rightarrow> nat \<Rightarrow> int \<Rightarrow> int \<Rightarrow> int" where
  "oct2dec_loop octal 0 decimal radix = decimal"
| "oct2dec_loop octal (Suc i) decimal radix =
     oct2dec_loop octal i
       (wrap_long (decimal + wrap_long ((char_value (octal ! i) - 48) * radix)))
       (wrap_long (radix * 8))"

definition oct2dec :: "string \<Rightarrow> int" where
  "oct2dec octal = oct2dec_loop octal (strlen octal) 0 1"

text \<open>
  The decoder as the specification words it: every byte of the field of declared length
  \<open>n\<close> is a digit, the byte value minus \<open>'0'\<close>.
\<close>

definition spec_decode :: "string \<Rightarrow> int" where
  "spec_decode s = (\<Sum>i<length s. (char_value (s ! i) - 48) * 8 ^ (length s - 1 - i))"

definition octal_digit :: "char \<Rightarrow> bool" where
  "octal_digit c = (48 \<le> (of_char c :: int) \<and> (of_char c :: int) \<le> 55)"

section \<open>The entry extent\<close>

definition blocks_count_of :: "int \<Rightarrow> int" where
  "blocks_count_of file_size =
     c_div (wrap_long (wrap_long (file_size + BLOCK_SIZE) - 1)) BLOCK_SIZE"

definition bytes_left_of :: "int \<Rightarrow> int" where
  "bytes_left_of file_size =
     wrap_long (file_size - wrap_long (wrap_long (blocks_count_of file_size - 1) * BLOCK_SIZE))"

section \<open>The archive stream\<close>

text \<open>
  \<open>FILE *fin\<close> is the bytes of the archive and the position in them. The calls of the
  C library are modelled from their standard behaviour: \<open>fread\<close> of one block returns 1
  exactly when 512 bytes are left after the position; \<open>fseek\<close> relative to the position
  may go past the end, and fails, leaving the position, when the target is negative or
  not representable. After a short read the code does not use the stream again, and the
  model leaves the position where it was.
\<close>

record stream =
  data :: string
  pos :: int

definition fread_block :: "stream \<Rightarrow> (string \<times> stream) option" where
  "fread_block f =
     (if 0 \<le> pos f \<and> pos f + BLOCK_SIZE \<le> int (length (data f))
      then Some (take 512 (drop (nat (pos f)) (data f)), f\<lparr>pos := pos f + BLOCK_SIZE\<rparr>)
      else None)"

definition fseek_cur :: "stream \<Rightarrow> int \<Rightarrow> stream" where
  "fseek_cur f offset =
     (if pos f + offset < 0 \<or> 2 ^ 63 \<le> pos f + offset then f
      else f\<lparr>pos := pos f + offset\<rparr>)"

definition ftell :: "stream \<Rightarrow> int" where
  "ftell f = pos f"

definition get_archive_size :: "stream \<Rightarrow> int \<times> stream" where
  "get_archive_size f = (int (length (data f)), f\<lparr>pos := 0\<rparr>)"

section \<open>Blocks and header checks\<close>

datatype error =
    NotTarArchive
  | UnsupportedType int
  | UnexpectedEOF
  | CreateError
  | MissingFiles

datatype warning = LoneZeroBlock int | NotFound string

datatype mode = LIST | EXTRACT

definition is_empty_block :: "string \<Rightarrow> bool" where
  "is_empty_block buffer = list_all (\<lambda>c. c = NUL) (take 512 buffer)"

definition is_tar_archive :: "string \<Rightarrow> error + unit" where
  "is_tar_archive header =
     (if strcmp (hdr_magic header) MAGIC \<noteq> 0 then Inl NotTarArchive else Inr ())"

definition is_regular_file :: "string \<Rightarrow> error + unit" where
  "is_regular_file header =
     (if strcmp (hdr_typeflag header) REG_FILE \<noteq> 0
      then Inl (UnsupportedType (char_value (hdr_typeflag header ! 0)))
      else Inr ())"

section \<open>The name filter\<close>

function mark_file_loop :: "nat \<Rightarrow> string \<Rightarrow> string list \<Rightarrow> nat \<Rightarrow> bool list \<Rightarrow> bool \<times> bool list" where
  "mark_file_loop i filename files_args files_count files_found =
     (if i < files_count then
        (if strcmp filename (files_args ! i) = 0 \<and> \<not> files_found ! i
         then (True, files_found[i := True])
         else mark_file_loop (Suc i) filename files_args files_count files_found)
      else (False, files_found))"
  by pat_completeness auto
termination
  by (relation "measure (\<lambda>(i, filename, files_args, files_count, files_found). files_count - i)") auto

definition mark_file :: "string \<Rightarrow> string list \<Rightarrow> nat \<Rightarrow> bool list \<Rightarrow> bool \<times> bool list" where
  "mark_file filename files_args files_count files_found =
     mark_file_loop 0 filename files_args files_count files_found"

definition should_print_of :: "nat \<Rightarrow> bool \<Rightarrow> bool" where
  "should_print_of files_count filename_found = (files_count = 0 \<or> filename_found)"

function report_missing_loop ::
    "nat \<Rightarrow> string list \<Rightarrow> nat \<Rightarrow> bool list \<Rightarrow> bool \<Rightarrow> warning list \<Rightarrow> bool \<times> warning list" where
  "report_missing_loop i files_args files_count files_found was_found ws =
     (if i < files_count then
        (if \<not> files_found ! i
         then report_missing_loop (Suc i) files_args files_count files_found True
                (ws @ [NotFound (c_str (files_args ! i))])
         else report_missing_loop (Suc i) files_args files_count files_found was_found ws)
      else (was_found, ws))"
  by pat_completeness auto
termination
  by (relation "measure (\<lambda>(i, files_args, files_count, files_found, was_found, ws). files_count - i)") auto

definition report_missing_files :: "string list \<Rightarrow> nat \<Rightarrow> bool list \<Rightarrow> bool \<times> warning list" where
  "report_missing_files files_args files_count files_found =
     report_missing_loop 0 files_args files_count files_found False []"

section \<open>The walker\<close>

text \<open>
  The parameters of \<open>read_archive\<close> that it only reads, with the one fact about the
  environment the code depends on: whether \<open>fopen(name, "w")\<close> succeeds. \<open>files_count\<close>
  is the length of \<open>files_args\<close>.
\<close>

record params =
  archive_size :: int
  files_args :: "string list"
  action :: mode
  verbose :: bool
  can_create :: "string \<Rightarrow> bool"

text \<open>
  The local variables of \<open>read_archive\<close> and what the process has done so far: the lines
  printed, the warnings given and the files written.
\<close>

record walker =
  fin :: stream
  files_found :: "bool list"
  first_empty :: bool
  second_empty :: bool
  blocks_read :: int
  printed :: "string list"
  warnings :: "warning list"
  disk :: "string \<rightharpoonup> string"

section \<open>Extraction\<close>

text \<open>
  The loop of \<open>extract_file\<close>, with the bytes written so far. \<open>Inl\<close> is the short read.
  A successful \<open>fwrite\<close> is assumed, as the code does; \<open>bytes_left_of_size_field\<close> below
  shows that the size of the last write is from 1 to 512 whenever that write is reached.
  The file is created empty by \<open>fopen\<close>, and what was written is on the disk also when
  the process ends in the middle of the entry.
\<close>

function extract_loop :: "int \<Rightarrow> int \<Rightarrow> int \<Rightarrow> stream \<Rightarrow> string \<Rightarrow> (stream \<times> string) + (stream \<times> string)" where
  "extract_loop i blocks_count bytes_left f written =
     (if i < blocks_count then
        (case fread_block f of
           Some (buffer, f') \<Rightarrow>
             extract_loop (wrap_int (i + 1)) blocks_count bytes_left f'
               (written @ (if wrap_int (i + 1) = blocks_count
                           then take (nat bytes_left) buffer
                           else take 512 buffer))
         | None \<Rightarrow> Inl (f, written))
      else Inr (f, written))"
  by pat_completeness auto
termination
  by (relation "measure (\<lambda>(i, blocks_count, bytes_left, f, written). nat (int (length (data f)) - pos f))")
     (auto simp: fread_block_def BLOCK_SIZE_def split: if_splits)

definition extract_file :: "params \<Rightarrow> string \<Rightarrow> walker \<Rightarrow> (error \<times> walker) + walker" where
  "extract_file p buffer w =
     (let name = c_str (hdr_name buffer) in
      if \<not> can_create p name then Inl (CreateError, w)
      else
        let file_size = oct2dec (hdr_size buffer);
            blocks_count = blocks_count_of file_size;
            bytes_left = bytes_left_of file_size
        in (case extract_loop 0 blocks_count bytes_left (fin w) [] of
              Inl (f, written) \<Rightarrow>
                Inl (UnexpectedEOF, w\<lparr>fin := f, disk := (disk w)(name \<mapsto> written)\<rparr>)
            | Inr (f, written) \<Rightarrow>
                Inr (w\<lparr>fin := f, disk := (disk w)(name \<mapsto> written)\<rparr>)))"

section \<open>The loop of the walk\<close>

text \<open>
  One round of the \<open>while\<close> loop ends in one of four ways: the next round, the \<open>break\<close>
  at the second zero block, the end of the loop because no block could be read, or the
  end of the process by \<open>errx\<close> (always with status 2).
\<close>

datatype flow = Next walker | Break walker | LoopExit walker | Exit error walker

text \<open>Lines 224 to 255: the header's checks, the filter, the listing, and skip or extract.\<close>

definition process_entry :: "params \<Rightarrow> string \<Rightarrow> walker \<Rightarrow> (error \<times> walker) + walker" where
  "process_entry p buffer w =
     (let file_size = oct2dec (hdr_size buffer);
          blocks_count = blocks_count_of file_size
      in case is_tar_archive buffer of
           Inl e \<Rightarrow> Inl (e, w)
         | Inr _ \<Rightarrow>
        (case is_regular_file buffer of
           Inl e \<Rightarrow> Inl (e, w)
         | Inr _ \<Rightarrow>
        (let (filename_found, found) =
               mark_file (hdr_name buffer) (files_args p) (length (files_args p)) (files_found w);
             w1 = w\<lparr>files_found := found\<rparr>;
             should_print = should_print_of (length (files_args p)) filename_found;
             w2 = (if should_print \<and> (action p = LIST \<or> (action p = EXTRACT \<and> verbose p))
                   then w1\<lparr>printed := printed w1 @ [c_str (hdr_name buffer)]\<rparr>
                   else w1)
         in if action p = EXTRACT \<and> should_print
            then extract_file p buffer w2
            else Inr (w2\<lparr>fin := fseek_cur (fin w2) (wrap_long (BLOCK_SIZE * blocks_count))\<rparr>))))"

definition loop_body :: "params \<Rightarrow> walker \<Rightarrow> flow" where
  "loop_body p w =
     (case fread_block (fin w) of
        None \<Rightarrow> LoopExit w
      | Some (buffer, f) \<Rightarrow>
          (let w1 = w\<lparr>fin := f, blocks_read := wrap_int (blocks_read w + 1)\<rparr> in
           if is_empty_block buffer then
             (if \<not> first_empty w1 then Next (w1\<lparr>first_empty := True\<rparr>)
              else Break (w1\<lparr>second_empty := True\<rparr>))
           else
             (case process_entry p buffer w1 of
                Inl (e, w2) \<Rightarrow> Exit e w2
              | Inr w2 \<Rightarrow>
                  if ftell (fin w2) > archive_size p then Exit UnexpectedEOF w2
                  else Next (w2\<lparr>blocks_read :=
                         wrap_int (wrap_long (blocks_read w2
                           + blocks_count_of (oct2dec (hdr_size buffer))))\<rparr>))))"

text \<open>
  The loop can run forever (a size field that decodes to a negative number seeks
  backwards), so it is given fuel: \<open>None\<close> is a walk that is still running when the fuel
  is used up.
\<close>

fun read_loop :: "nat \<Rightarrow> params \<Rightarrow> walker \<Rightarrow> flow option" where
  "read_loop 0 p w = None"
| "read_loop (Suc n) p w =
     (case loop_body p w of
        Next w' \<Rightarrow> read_loop n p w'
      | r \<Rightarrow> Some r)"

text \<open>The walker as it is at the start of round \<open>n\<close>, if the loop gets there.\<close>

fun walker_at :: "nat \<Rightarrow> params \<Rightarrow> walker \<Rightarrow> walker option" where
  "walker_at 0 p w = Some w"
| "walker_at (Suc n) p w =
     (case loop_body p w of
        Next w' \<Rightarrow> walker_at n p w'
      | _ \<Rightarrow> None)"

text \<open>Lines 267 to 277, after the loop.\<close>

definition after_loop :: "params \<Rightarrow> walker \<Rightarrow> (error \<times> walker) + walker" where
  "after_loop p w =
     (let w1 = (if first_empty w \<and> \<not> second_empty w
                then w\<lparr>warnings := warnings w @ [LoneZeroBlock (blocks_read w)]\<rparr>
                else w);
          (missing, ws) = report_missing_files (files_args p) (length (files_args p)) (files_found w1);
          w2 = w1\<lparr>warnings := warnings w1 @ ws\<rparr>
      in if missing then Inl (MissingFiles, w2) else Inr w2)"

definition initial_walker :: "params \<Rightarrow> stream \<Rightarrow> walker" where
  "initial_walker p f =
     \<lparr>fin = f, files_found = replicate (length (files_args p)) False,
      first_empty = False, second_empty = False, blocks_read = 0,
      printed = [], warnings = [], disk = Map.empty\<rparr>"

definition read_archive :: "nat \<Rightarrow> params \<Rightarrow> stream \<Rightarrow> ((error \<times> walker) + walker) option" where
  "read_archive fuel p f =
     (case read_loop fuel p (initial_walker p f) of
        None \<Rightarrow> None
      | Some (Next w) \<Rightarrow> None
      | Some (Break w) \<Rightarrow> Some (after_loop p w)
      | Some (LoopExit w) \<Rightarrow> Some (after_loop p w)
      | Some (Exit e w) \<Rightarrow> Some (Inl (e, w)))"

text \<open>
  \<open>main\<close> from the point where the archive is open: the size of the archive is measured
  and given to the walk. The status of the process is 2 after \<open>errx\<close> and 0 otherwise.
\<close>

definition main :: "nat \<Rightarrow> string \<Rightarrow> string list \<Rightarrow> mode \<Rightarrow> bool \<Rightarrow> (string \<Rightarrow> bool)
    \<Rightarrow> ((error \<times> walker) + walker) option" where
  "main fuel archive names act vflag creatable =
     (let (archive_len, f) = get_archive_size \<lparr>data = archive, pos = 0\<rparr>
      in read_archive fuel
           \<lparr>archive_size = archive_len, files_args = names, action = act, verbose = vflag,
            can_create = creatable\<rparr> f)"

definition exit_status :: "(error \<times> walker) + walker \<Rightarrow> int" where
  "exit_status r = (case r of Inl _ \<Rightarrow> 2 | Inr _ \<Rightarrow> 0)"

section \<open>Example archives\<close>

definition pad :: "nat \<Rightarrow> string \<Rightarrow> string" where
  "pad n s = s @ replicate (n - length s) NUL"

text \<open>A header block from its name, size, type flag, link name and the eight bytes of
  magic and version.\<close>

definition example_header :: "string \<Rightarrow> string \<Rightarrow> string \<Rightarrow> string \<Rightarrow> string \<Rightarrow> string" where
  "example_header name size_digits typeflag linkname tag =
     pad 100 name @ pad 24 [] @ pad 12 size_digits @ pad 20 [] @ pad 1 typeflag
       @ pad 100 linkname @ pad 8 tag @ pad 247 []"

definition zero_block :: string where
  "zero_block = replicate 512 NUL"

text \<open>The parameters of a walk over an archive of the given length, where every output
  file can be created.\<close>

definition example_params :: "int \<Rightarrow> string list \<Rightarrow> mode \<Rightarrow> params" where
  "example_params len names act =
     \<lparr>archive_size = len, files_args = names, action = act, verbose = False,
      can_create = (\<lambda>name. True)\<rparr>"

section \<open>Facts about the machine integers\<close>

lemma wrap_long_id: "- (2 ^ 63) \<le> x \<Longrightarrow> x < 2 ^ 63 \<Longrightarrow> wrap_long x = x"
  by (simp add: wrap_long_def)

lemma wrap_int_id: "- (2 ^ 31) \<le> x \<Longrightarrow> x < 2 ^ 31 \<Longrightarrow> wrap_int x = x"
  by (simp add: wrap_int_def)

lemma octal_digit_value: "octal_digit c \<Longrightarrow> 0 \<le> char_value c - 48 \<and> char_value c - 48 \<le> 7"
  by (simp add: octal_digit_def char_value_def)

lemma pow8_le: "k \<le> 20 \<Longrightarrow> (8::int) ^ k \<le> 8 ^ 20"
  by (rule power_increasing) simp_all

lemma digit_sum_step:
  "(\<Sum>j<Suc i. f j * (8::int) ^ (Suc i - 1 - j)) = 8 * (\<Sum>j<i. f j * 8 ^ (i - 1 - j)) + f i"
proof -
  have "(\<Sum>j<i. f j * (8::int) ^ (i - j)) = (\<Sum>j<i. 8 * (f j * 8 ^ (i - 1 - j)))"
  proof (rule sum.cong)
    fix j assume "j \<in> {..<i}"
    then have "i - j = Suc (i - 1 - j)" by auto
    then show "f j * (8::int) ^ (i - j) = 8 * (f j * 8 ^ (i - 1 - j))" by simp
  qed simp
  then show ?thesis by (simp add: sum_distrib_left)
qed

lemma oct2dec_loop_digits:
  "\<forall>j<i. octal_digit (s ! j) \<Longrightarrow> 0 \<le> d \<Longrightarrow> d < 8 ^ k \<Longrightarrow> k + i \<le> 20 \<Longrightarrow>
   oct2dec_loop s i d (8 ^ k) = d + 8 ^ k * (\<Sum>j<i. (char_value (s ! j) - 48) * 8 ^ (i - 1 - j))"
proof (induction i arbitrary: d k)
  case 0
  then show ?case by simp
next
  case (Suc i)
  define c where "c = char_value (s ! i) - 48"
  define P where "P = (8::int) ^ k"
  have c: "0 \<le> c" "c \<le> 7" using Suc.prems(1) octal_digit_value by (auto simp: c_def)
  have "(8::int) ^ Suc k \<le> 8 ^ 20" using Suc.prems(4) by (intro pow8_le) simp
  then have P8: "P * 8 \<le> 1152921504606846976" by (simp add: P_def)
  have P0: "0 < P" by (simp add: P_def)
  have m1: "c * P \<le> 7 * P" using c P0 by (intro mult_right_mono) simp_all
  have m0: "0 \<le> c * P" using c P0 by simp
  have dP: "d < P" using Suc.prems(3) by (simp add: P_def)
  have w1: "wrap_long (c * P) = c * P"
    using m0 m1 P8 by (intro wrap_long_id) simp_all
  have d': "d + c * P < P * 8" using dP m1 by simp
  have w2: "wrap_long (d + c * P) = d + c * P"
    using d' m0 Suc.prems(2) P8 by (intro wrap_long_id) simp_all
  have P': "P * 8 = 8 ^ Suc k" by (simp add: P_def)
  have "wrap_long (P * 8) = P * 8"
    using P8 P0 by (intro wrap_long_id) simp_all
  then have w3: "wrap_long (8 ^ k * 8) = 8 ^ Suc k" by (simp add: P_def)
  have "oct2dec_loop s (Suc i) d (8 ^ k) = oct2dec_loop s i (d + c * P) (8 ^ Suc k)"
    unfolding oct2dec_loop.simps w3 unfolding c_def [symmetric] P_def [symmetric] w1 w2 ..
  also have "\<dots> = (d + c * P) + 8 ^ Suc k * (\<Sum>j<i. (char_value (s ! j) - 48) * 8 ^ (i - 1 - j))"
    using Suc.prems m0 d' by (intro Suc.IH) (auto simp: P')
  also have "\<dots> = d + 8 ^ k * (\<Sum>j<Suc i. (char_value (s ! j) - 48) * 8 ^ (Suc i - 1 - j))"
    by (simp only: digit_sum_step) (simp add: algebra_simps c_def P_def)
  finally show ?case .
qed

lemma oct2dec_loop_append:
  "i \<le> length s \<Longrightarrow> oct2dec_loop (s @ t) i d r = oct2dec_loop s i d r"
  by (induction i arbitrary: d r) (simp_all add: nth_append)

lemma c_str_append_NUL: "NUL \<notin> set s \<Longrightarrow> c_str (s @ NUL # rest) = s"
  by (induction s) (auto simp: c_str_def)

lemma octal_digit_not_NUL: "octal_digit c \<Longrightarrow> c \<noteq> NUL"
  by (auto simp: octal_digit_def)

lemma oct2dec_terminated:
  "NUL \<notin> set s \<Longrightarrow> oct2dec (s @ NUL # rest) = oct2dec_loop s (length s) 0 1"
  by (simp add: oct2dec_def strlen_def c_str_append_NUL oct2dec_loop_append)

lemma digit_sum_nonneg:
  "\<forall>c\<in>set s. octal_digit c \<Longrightarrow> 0 \<le> (\<Sum>i<length s. (char_value (s ! i) - 48) * (8::int) ^ (length s - 1 - i))"
  by (intro sum_nonneg) (use octal_digit_value in auto)


section \<open>The octal decoder: what it reads and what it returns\<close>

text \<open>
  C2, as the claim states it, fails. The decoder does not consume the declared field
  length: it reads up to the first NUL (\<open>strlen\<close>). On the twelve bytes of a size field
  holding eleven digits and a NUL the code returns 100, where the digit sum over all
  twelve bytes is 752; and space padding makes the result negative.
\<close>

theorem oct2dec_not_field_length:
  "length (''00000000144'' @ [NUL]) = 12
   \<and> strlen (''00000000144'' @ [NUL]) = 11
   \<and> oct2dec (''00000000144'' @ [NUL]) = 100
   \<and> spec_decode (''00000000144'' @ [NUL]) = 752
   \<and> oct2dec (''00000000144'' @ [NUL]) \<noteq> spec_decode (''00000000144'' @ [NUL])
   \<and> oct2dec (''        144 '') < 0"
  by code_simp


text \<open>
  C2, amended: the decoder consumes the bytes before the first NUL, whatever follows it;
  when these \<open>n\<close> bytes are octal digits and \<open>n\<close> is at most 20 (so that nothing
  overflows), the result is the sum of \<open>digit i * 8 ^ (n - 1 - i)\<close>, which is not
  negative.
\<close>

theorem oct2dec_digits:
  assumes "\<forall>c\<in>set s. octal_digit c" and "length s \<le> 20"
  shows "oct2dec (s @ NUL # rest) = (\<Sum>i<length s. (char_value (s ! i) - 48) * 8 ^ (length s - 1 - i))
       \<and> 0 \<le> oct2dec (s @ NUL # rest)
       \<and> strlen (s @ NUL # rest) = length s"
proof -
  have n: "NUL \<notin> set s" using assms(1) octal_digit_not_NUL by blast
  have "oct2dec_loop s (length s) 0 (8 ^ 0) =
     0 + 8 ^ 0 * (\<Sum>j<length s. (char_value (s ! j) - 48) * 8 ^ (length s - 1 - j))"
    using assms by (intro oct2dec_loop_digits) auto
  then have e: "oct2dec (s @ NUL # rest) = (\<Sum>i<length s. (char_value (s ! i) - 48) * 8 ^ (length s - 1 - i))"
    by (simp add: oct2dec_terminated [OF n])
  show ?thesis using e digit_sum_nonneg [OF assms(1)] n by (simp add: strlen_def c_str_append_NUL)
qed

theorem oct2dec_digits_witness:
  "list_all octal_digit ''144'' \<and> length ''144'' \<le> 20 \<and> oct2dec (''144'' @ NUL # ''14371573153'') = 100"
proof -
  have h: "\<forall>c\<in>set ''144''. octal_digit c" "length ''144'' \<le> 20"
    by (simp_all add: octal_digit_def)
  have "(\<Sum>i<length ''144''. (char_value (''144'' ! i) - 48) * 8 ^ (length ''144'' - 1 - i)) = 100"
    by code_simp
  then show ?thesis using h oct2dec_digits [OF h, of "''14371573153''"] by simp
qed


section \<open>The entry extent: blocks and tail bytes\<close>

lemma c_div_nonneg: "0 \<le> a \<Longrightarrow> 0 < b \<Longrightarrow> c_div a b = a div b"
  by (cases "a = 0") (simp_all add: c_div_def)

lemma blocks_count_of_nonneg:
  assumes "0 \<le> s" "s + 512 < 2 ^ 63"
  shows "blocks_count_of s = (s + 511) div 512"
proof -
  have a: "wrap_long (s + 512) = s + 512" using assms by (intro wrap_long_id) simp_all
  have b: "wrap_long (s + 512 - 1) = s + 512 - 1" using assms by (intro wrap_long_id) simp_all
  have c: "c_div (s + 512 - 1) 512 = (s + 512 - 1) div 512"
    using assms by (intro c_div_nonneg) simp_all
  have "blocks_count_of s = (s + 512 - 1) div 512"
    unfolding blocks_count_of_def BLOCK_SIZE_def a b c ..
  then show ?thesis by simp
qed

lemma bytes_left_of_nonneg:
  assumes "0 \<le> s" "s + 512 < 2 ^ 63"
  shows "bytes_left_of s = s - ((s + 511) div 512 - 1) * 512"
proof -
  define q where "q = (s + 511) div 512"
  have q: "0 \<le> q" "512 * q \<le> s + 511" "s + 511 < 512 * q + 512"
    using assms by (auto simp: q_def)
  have 1: "wrap_long (q - 1) = q - 1" using q assms by (intro wrap_long_id) simp_all
  have 2: "wrap_long ((q - 1) * 512) = (q - 1) * 512" using q assms by (intro wrap_long_id) simp_all
  have 3: "wrap_long (s - (q - 1) * 512) = s - (q - 1) * 512" using q assms by (intro wrap_long_id) simp_all
  show ?thesis
    unfolding bytes_left_of_def blocks_count_of_nonneg [OF assms] q_def [symmetric] BLOCK_SIZE_def 1 2 3 ..
qed


text \<open>
  C3, as the claim states it, fails at size 0: the tail bytes are 512 there, and 0 is not
  a positive multiple of 512. It also fails where \<open>size + 512\<close> leaves the range of
  \<open>long\<close>: the block count of \<open>2 ^ 63 - 1\<close> is negative.
\<close>

theorem entry_extent_counterexample:
  "\<not> (bytes_left_of 0 = 512 \<longleftrightarrow> (0::int) < 0 \<and> 512 dvd (0::int))
   \<and> 0 \<le> (2 ^ 63 - 1 :: int) \<and> blocks_count_of (2 ^ 63 - 1) < 0"
  by (simp add: blocks_count_of_def bytes_left_of_def wrap_long_def c_div_def BLOCK_SIZE_def)

text \<open>
  C3, amended: for every size from 0 up to \<open>2 ^ 63 - 513\<close> the block count is
  \<open>ceil (size / 512)\<close>, the tail bytes are between 0 and 512, and they are 512 exactly
  when the size is a multiple of 512, zero included; a positive size is the full blocks
  before the last one plus the tail bytes, which are then positive; and size 0 has no
  blocks.
\<close>

theorem entry_extent:
  assumes "0 \<le> s" "s + 512 < 2 ^ 63"
  shows "blocks_count_of s = \<lceil>real_of_int s / 512\<rceil>
       \<and> 0 \<le> bytes_left_of s \<and> bytes_left_of s \<le> 512
       \<and> (bytes_left_of s = 512 \<longleftrightarrow> 512 dvd s)
       \<and> (0 < s \<longrightarrow> 0 < bytes_left_of s \<and> s = (blocks_count_of s - 1) * 512 + bytes_left_of s)
       \<and> (s = 0 \<longrightarrow> blocks_count_of s = 0)"
proof -
  define q where "q = (s + 511) div 512"
  have q: "512 * q \<le> s + 511" "s + 511 < 512 * q + 512"
    by (auto simp: q_def)
  have c: "\<lceil>real_of_int s / 512\<rceil> = - (- s div 512)"
    using ceiling_divide_eq_div [of s 512] by simp
  have "- s div 512 = - q"
  proof (rule int_div_pos_eq [where r = "512 * q - s"])
    show "- s = 512 * - q + (512 * q - s)" by simp
    show "0 \<le> 512 * q - s" using q by linarith
    show "512 * q - s < 512" using q by linarith
  qed
  then have "- (- s div 512) = (s + 511) div 512" by (simp add: q_def)
  then have 1: "blocks_count_of s = \<lceil>real_of_int s / 512\<rceil>"
    using c by (simp add: blocks_count_of_nonneg [OF assms])
  have bq: "blocks_count_of s = q"
    by (simp add: blocks_count_of_nonneg [OF assms] q_def)
  have b: "bytes_left_of s = s - 512 * q + 512"
    by (simp add: bytes_left_of_nonneg [OF assms] q_def algebra_simps)
  have d: "512 dvd s \<longleftrightarrow> s = 512 * q"
  proof
    assume "512 dvd s"
    then obtain k where k: "s = 512 * k" ..
    have "q = k" using q unfolding k by linarith
    then show "s = 512 * q" using k by simp
  qed simp
  have z: "s = 0 \<longrightarrow> q = 0" by (simp add: q_def)
  have 2: "0 \<le> bytes_left_of s \<and> bytes_left_of s \<le> 512" using q unfolding b by linarith
  have 3: "bytes_left_of s = 512 \<longleftrightarrow> 512 dvd s" unfolding b d by linarith
  have 4: "0 < s \<longrightarrow> 0 < bytes_left_of s \<and> s = (blocks_count_of s - 1) * 512 + bytes_left_of s"
    using q unfolding b bq by (simp add: algebra_simps)
  have 5: "s = 0 \<longrightarrow> blocks_count_of s = 0" using z bq by auto
  show ?thesis using 1 2 3 4 5 by blast
qed

theorem entry_extent_witness:
  "(0::int) \<le> 1000 \<and> (1000::int) + 512 < 2 ^ 63 \<and> blocks_count_of 1000 = 2 \<and> bytes_left_of 1000 = 488"
proof -
  have h: "(0::int) \<le> 1000" "(1000::int) + 512 < 2 ^ 63" by simp_all
  have e: "blocks_count_of 1000 = 2" "bytes_left_of 1000 = 488"
    by (simp_all add: blocks_count_of_def bytes_left_of_def wrap_long_def c_div_def BLOCK_SIZE_def)
  show ?thesis using h e entry_extent [OF h] by simp
qed

section \<open>C strings and the header checks\<close>

lemma of_char_eq_0_iff: "(of_char c :: int) = 0 \<longleftrightarrow> c = NUL"
proof -
  have "(of_char c :: int) = of_char NUL \<longleftrightarrow> c = NUL" by (rule of_char_eq_iff)
  then show ?thesis by simp
qed

lemma c_str_Nil: "c_str [] = []"
  by (simp add: c_str_def)

lemma c_str_Cons: "c_str (c # cs) = (if c = NUL then [] else c # c_str cs)"
  by (simp add: c_str_def)

lemma strcmp_eq_0_iff: "strcmp a b = 0 \<longleftrightarrow> c_str a = c_str b"
proof (induction a b rule: strcmp.induct)
  case 1
  show ?case by (simp add: c_str_Nil)
next
  case (2 b bs)
  show ?case by (simp add: c_str_Nil c_str_Cons of_char_eq_0_iff)
next
  case (3 a as)
  show ?case by (simp add: c_str_Nil c_str_Cons of_char_eq_0_iff)
next
  case (4 a as b bs)
  show ?case
  proof (cases "a = b")
    case True
    then show ?thesis using 4 by (simp add: c_str_Cons)
  next
    case False
    then have "(of_char a :: int) \<noteq> of_char b" by simp
    then show ?thesis using False by (auto simp add: c_str_Cons)
  qed
qed

lemma c_str_no_NUL: "NUL \<notin> set s \<Longrightarrow> c_str s = s"
  by (induction s) (auto simp: c_str_Nil c_str_Cons)

lemma c_str_eq_take:
  assumes "NUL \<notin> set s" "length s < length p"
  shows "c_str p = s \<longleftrightarrow> take (Suc (length s)) p = s @ [NUL]"
  using assms
proof (induction s arbitrary: p)
  case Nil
  then show ?case by (cases p) (auto simp: c_str_Cons)
next
  case (Cons c s)
  then show ?case by (cases p) (auto simp: c_str_Cons)
qed

lemma c_str_eq_iff:
  assumes "NUL \<notin> set s" "length s < length p" "n = Suc (length s)"
  shows "c_str p = s \<longleftrightarrow> take n p = s @ [NUL]"
  using c_str_eq_take [OF assms(1,2)] assms(3) by simp

lemma is_tar_archive_iff:
  assumes "length buffer = 512"
  shows "is_tar_archive buffer = Inr () \<longleftrightarrow> take 8 (drop 257 buffer) = ''ustar  '' @ [NUL]"
proof -
  have "c_str (drop 257 buffer) = ''ustar  '' \<longleftrightarrow>
        take 8 (drop 257 buffer) = ''ustar  '' @ [NUL]"
    using assms by (intro c_str_eq_iff) simp_all
  then show ?thesis
    by (simp add: is_tar_archive_def strcmp_eq_0_iff hdr_magic_def field_ptr_def MAGIC_def c_str_Cons c_str_Nil)
qed

lemma is_tar_archive_cases: "is_tar_archive buffer = Inr () \<or> is_tar_archive buffer = Inl NotTarArchive"
  by (simp add: is_tar_archive_def)

lemma magic_version_split:
  "take 8 (drop 257 buffer) = magic_field buffer @ version_field buffer"
proof -
  have "take (6 + 2) (drop 257 buffer) = take 6 (drop 257 buffer) @ take 2 (drop 6 (drop 257 buffer))"
    by (rule take_add)
  then show ?thesis by (simp add: magic_field_def version_field_def field_def)
qed

text \<open>
  C10: the magic check compares the string that starts at the magic field, so it reads
  the version field too. A block passes exactly when its magic bytes are \<open>"ustar "\<close> and
  its version bytes are a space and a NUL; every other block, the POSIX tag
  (\<open>"ustar"\<close> and a NUL, then \<open>"00"\<close>) among them, is the fatal "not a tar archive".
\<close>

theorem magic_check_reads_version:
  assumes "length buffer = 512"
  shows "is_tar_archive buffer =
           (if magic_field buffer = ''ustar '' \<and> version_field buffer = [CHR '' '', NUL]
            then Inr () else Inl NotTarArchive)
       \<and> (magic_field buffer = ''ustar'' @ [NUL] \<and> version_field buffer = ''00''
            \<longrightarrow> is_tar_archive buffer = Inl NotTarArchive)"
proof -
  have l: "length (magic_field buffer) = 6"
    using assms by (simp add: magic_field_def field_def)
  have "take 8 (drop 257 buffer) = ''ustar  '' @ [NUL] \<longleftrightarrow>
        magic_field buffer = ''ustar '' \<and> version_field buffer = [CHR '' '', NUL]"
  proof -
    have e: "''ustar  '' @ [NUL] = ''ustar '' @ [CHR '' '', NUL]" by simp
    show ?thesis
      unfolding magic_version_split e using l by (intro append_eq_append_conv) simp
  qed
  then have 1: "is_tar_archive buffer = Inr () \<longleftrightarrow>
        magic_field buffer = ''ustar '' \<and> version_field buffer = [CHR '' '', NUL]"
    using is_tar_archive_iff [OF assms] by simp
  show ?thesis using 1 is_tar_archive_cases [of buffer] by auto
qed

section \<open>Facts about the example archives\<close>

lemma length_pad: "length s \<le> n \<Longrightarrow> length (pad n s) = n"
  by (simp add: pad_def)

lemma length_example_header:
  "length n \<le> 100 \<Longrightarrow> length s \<le> 12 \<Longrightarrow> length t \<le> 1 \<Longrightarrow> length l \<le> 100 \<Longrightarrow> length g \<le> 8 \<Longrightarrow>
   length (example_header n s t l g) = 512"
  by (simp add: example_header_def length_pad)

lemma hdr_size_example:
  "length n \<le> 100 \<Longrightarrow>
   hdr_size (example_header n s t l g) =
     pad 12 s @ pad 20 [] @ pad 1 t @ pad 100 l @ pad 8 g @ pad 247 []"
  by (simp add: example_header_def hdr_size_def field_ptr_def length_pad)

lemma hdr_typeflag_example:
  "length n \<le> 100 \<Longrightarrow> length s \<le> 12 \<Longrightarrow>
   hdr_typeflag (example_header n s t l g) = pad 1 t @ pad 100 l @ pad 8 g @ pad 247 []"
  by (simp add: example_header_def hdr_typeflag_def field_ptr_def length_pad)

lemma hdr_magic_example:
  "length n \<le> 100 \<Longrightarrow> length s \<le> 12 \<Longrightarrow> length t \<le> 1 \<Longrightarrow> length l \<le> 100 \<Longrightarrow>
   hdr_magic (example_header n s t l g) = pad 8 g @ pad 247 []"
  by (simp add: example_header_def hdr_magic_def field_ptr_def length_pad)

lemma c_str_append: "NUL \<notin> set s \<Longrightarrow> c_str (s @ r) = s @ c_str r"
  by (induction s) (auto simp: c_str_Cons)

lemma c_str_replicate_NUL: "0 < k \<Longrightarrow> c_str (replicate k NUL @ r) = []"
  by (cases k) (simp_all add: c_str_Cons)

lemma c_str_pad: "NUL \<notin> set s \<Longrightarrow> length s < n \<Longrightarrow> c_str (pad n s @ r) = s"
  by (simp add: pad_def c_str_append c_str_replicate_NUL)

lemma c_str_pad_full: "NUL \<notin> set s \<Longrightarrow> length s = n \<Longrightarrow> c_str (pad n s @ r) = s @ c_str r"
  by (simp add: pad_def c_str_append)

lemma c_str_name_example:
  "NUL \<notin> set n \<Longrightarrow> length n < 100 \<Longrightarrow> c_str (hdr_name (example_header n s t l g)) = n"
  by (simp add: example_header_def hdr_name_def field_ptr_def c_str_pad)

lemma oct2dec_loop_cong:
  "\<forall>j<i. a ! j = b ! j \<Longrightarrow> oct2dec_loop a i d r = oct2dec_loop b i d r"
  by (induction i arbitrary: d r) simp_all

lemma c_str_nth: "j < length (c_str p) \<Longrightarrow> c_str p ! j = p ! j"
  unfolding c_str_def by (rule takeWhile_nth)

lemma oct2dec_c_str: "oct2dec p = oct2dec (c_str p)"
proof -
  have "c_str (c_str p) = c_str p"
    by (simp add: c_str_def)
  moreover have "oct2dec_loop p (length (c_str p)) 0 1 = oct2dec_loop (c_str p) (length (c_str p)) 0 1"
    by (intro oct2dec_loop_cong) (simp add: c_str_nth)
  ultimately show ?thesis by (simp add: oct2dec_def strlen_def)
qed

lemma oct2dec_size_example:
  "NUL \<notin> set s \<Longrightarrow> length n \<le> 100 \<Longrightarrow> length s < 12 \<Longrightarrow>
   oct2dec (hdr_size (example_header n s t l g)) = oct2dec s"
proof -
  assume a: "NUL \<notin> set s" "length n \<le> 100" "length s < 12"
  have "c_str (hdr_size (example_header n s t l g)) = c_str s"
    using a by (simp add: hdr_size_example c_str_pad c_str_no_NUL)
  then show ?thesis
    by (subst oct2dec_c_str, subst (2) oct2dec_c_str) simp
qed

lemma is_empty_block_zero: "is_empty_block zero_block"
  by (simp add: is_empty_block_def zero_block_def list_all_iff)

lemma length_zero_block: "length zero_block = 512"
  by (simp add: zero_block_def)

lemma is_empty_block_example:
  "c \<noteq> NUL \<Longrightarrow> \<not> is_empty_block (example_header (c # n) s t l g)"
  by (simp add: is_empty_block_def example_header_def pad_def)

lemma is_tar_archive_example:
  "length n \<le> 100 \<Longrightarrow> length s \<le> 12 \<Longrightarrow> length t \<le> 1 \<Longrightarrow> length l \<le> 100 \<Longrightarrow>
   is_tar_archive (example_header n s t l ''ustar  '') = Inr ()"
  by (simp add: is_tar_archive_def hdr_magic_example strcmp_eq_0_iff MAGIC_def c_str_pad c_str_no_NUL)

lemma is_regular_file_example:
  "length n \<le> 100 \<Longrightarrow> length s \<le> 12 \<Longrightarrow>
   is_regular_file (example_header n s ''0'' [] g) = Inr ()"
  by (simp add: is_regular_file_def hdr_typeflag_example strcmp_eq_0_iff REG_FILE_def c_str_pad_full c_str_pad c_str_no_NUL)

lemma fread_block_at:
  assumes "length pre = n" "length b = 512"
  shows "fread_block \<lparr>data = pre @ b @ rest, pos = int n\<rparr>
       = Some (b, \<lparr>data = pre @ b @ rest, pos = int n + 512\<rparr>)"
  using assms by (simp add: fread_block_def BLOCK_SIZE_def)

lemma magic_field_example:
  "length n \<le> 100 \<Longrightarrow> length s \<le> 12 \<Longrightarrow> length t \<le> 1 \<Longrightarrow> length l \<le> 100 \<Longrightarrow> length g \<le> 8 \<Longrightarrow>
   magic_field (example_header n s t l g) = take 6 (pad 8 g)"
  using hdr_magic_example [of n s t l g]
  by (simp add: magic_field_def field_def hdr_magic_def field_ptr_def length_pad)

lemma version_field_example:
  "length n \<le> 100 \<Longrightarrow> length s \<le> 12 \<Longrightarrow> length t \<le> 1 \<Longrightarrow> length l \<le> 100 \<Longrightarrow> length g \<le> 8 \<Longrightarrow>
   version_field (example_header n s t l g) = drop 6 (pad 8 g)"
proof -
  assume a: "length n \<le> 100" "length s \<le> 12" "length t \<le> 1" "length l \<le> 100" "length g \<le> 8"
  have "drop 263 (example_header n s t l g) = drop 6 (drop 257 (example_header n s t l g))"
    by simp
  also have "\<dots> = drop 6 (pad 8 g @ pad 247 [])"
    using hdr_magic_example [of n s t l g] a by (simp add: hdr_magic_def field_ptr_def)
  finally show ?thesis using a by (simp add: version_field_def field_def length_pad)
qed

theorem magic_check_reads_version_witness:
  "length (example_header ''a'' ''0'' ''0'' [] ''ustar  '') = 512
   \<and> is_tar_archive (example_header ''a'' ''0'' ''0'' [] ''ustar  '') = Inr ()
   \<and> magic_field (example_header ''a'' ''0'' ''0'' [] (''ustar'' @ [NUL] @ ''00'')) = ''ustar'' @ [NUL]
   \<and> version_field (example_header ''a'' ''0'' ''0'' [] (''ustar'' @ [NUL] @ ''00'')) = ''00''
   \<and> is_tar_archive (example_header ''a'' ''0'' ''0'' [] (''ustar'' @ [NUL] @ ''00'')) = Inl NotTarArchive"
proof -
  let ?g = "example_header ''a'' ''0'' ''0'' [] ''ustar  ''"
  let ?p = "example_header ''a'' ''0'' ''0'' [] (''ustar'' @ [NUL] @ ''00'')"
  have lg: "length ?g = 512" by (simp add: length_example_header)
  have lp: "length ?p = 512" by (simp add: length_example_header)
  have fg: "magic_field ?g = ''ustar ''" "version_field ?g = [CHR '' '', NUL]"
    by (simp_all add: magic_field_example version_field_example pad_def)
  have fp: "magic_field ?p = ''ustar'' @ [NUL]" "version_field ?p = ''00''"
    by (simp_all add: magic_field_example version_field_example pad_def)
  show ?thesis
    using lg fg fp magic_check_reads_version [OF lg] magic_check_reads_version [OF lp]
    by simp
qed

section \<open>The name filter: first unflagged match\<close>

lemma mark_file_loop_hit:
  assumes "i \<le> j" "j < n"
      and "strcmp filename (args ! j) = 0" "\<not> found ! j"
      and "\<forall>k. i \<le> k \<and> k < j \<longrightarrow> \<not> (strcmp filename (args ! k) = 0 \<and> \<not> found ! k)"
  shows "mark_file_loop i filename args n found = (True, found[j := True])"
  using assms
proof (induction "j - i" arbitrary: i)
  case 0
  then have "i = j" by simp
  then show ?case using 0 by simp
next
  case (Suc d)
  then have lt: "i < j" by simp
  then have "\<not> (strcmp filename (args ! i) = 0 \<and> \<not> found ! i)" using Suc.prems by simp
  moreover have "mark_file_loop (Suc i) filename args n found = (True, found[j := True])"
    using Suc lt by (intro Suc.hyps(1)) auto
  ultimately show ?case using lt Suc.prems(2) by (subst mark_file_loop.simps) auto
qed

lemma mark_file_loop_miss:
  assumes "\<forall>k. i \<le> k \<and> k < n \<longrightarrow> \<not> (strcmp filename (args ! k) = 0 \<and> \<not> found ! k)"
  shows "mark_file_loop i filename args n found = (False, found)"
  using assms
proof (induction "n - i" arbitrary: i)
  case 0
  then show ?case by (subst mark_file_loop.simps) simp
next
  case (Suc d)
  then have lt: "i < n" by simp
  have "mark_file_loop (Suc i) filename args n found = (False, found)"
    using Suc by (intro Suc.hyps(1)) auto
  then show ?case using lt Suc.prems by (subst mark_file_loop.simps) auto
qed

lemma first_index_ex:
  "P (j::nat) \<Longrightarrow> \<exists>m\<le>j. P m \<and> (\<forall>k<m. \<not> P k)"
proof (induction j rule: less_induct)
  case (less j)
  show ?case
  proof (cases "\<exists>k<j. P k")
    case True
    then obtain k where "k < j" "P k" by blast
    then obtain m where "m \<le> k" "P m" "\<forall>i<m. \<not> P i" using less.IH by blast
    then show ?thesis using \<open>k < j\<close> by (intro exI [of _ m]) auto
  next
    case False
    then show ?thesis using less.prems by (intro exI [of _ j]) auto
  qed
qed

text \<open>
  C7, as the claim states it, fails where a name is requested twice, which the command
  line allows: the first entry \<open>a\<close> flags the first request, and a later entry \<open>a\<close>
  finds the second request unflagged, flags it and is selected. The name \<open>a\<close> was found
  already, and it is flagged a second time.
\<close>

theorem requested_twice_selected_twice:
  "mark_file ''a'' [''a'', ''a''] 2 [False, False] = (True, [True, False])
   \<and> mark_file ''a'' [''a'', ''a''] 2 [True, False] = (True, [True, True])
   \<and> should_print_of 2 (fst (mark_file ''a'' [''a'', ''a''] 2 [True, False]))"
  by (simp add: mark_file_def mark_file_loop.simps should_print_of_def)

text \<open>
  C7, amended: with no requested names every entry is selected. Otherwise \<open>mark_file\<close>
  flags exactly the first request that is unflagged and equal to the entry's name, and
  returns true; when there is none it changes nothing and returns false, so the entry is
  not selected. A flag that is set stays set, and the request that is flagged was not
  flagged before. When the requested names are distinct, a name once found is never
  flagged again and a later entry of that name is not selected; where a name is repeated,
  a later entry of that name flags its next unflagged request, as said above.
\<close>

theorem mark_file_first_unflagged:
  fixes filename :: string and names :: "string list" and found :: "bool list"
  assumes len: "length found = length names"
  defines "n \<equiv> length names"
  defines "r \<equiv> mark_file filename names n found"
  defines "wanted \<equiv> (\<lambda>found j. j < n \<and> c_str (names ! j) = c_str filename \<and> \<not> found ! j)"
  shows "should_print_of 0 (fst (mark_file filename [] 0 []))
    \<and> ((\<exists>j. wanted found j) \<longrightarrow>
           (\<exists>j. wanted found j \<and> (\<forall>k<j. \<not> wanted found k)
                \<and> r = (True, found[j := True]) \<and> should_print_of n (fst r)))
    \<and> (\<not> (\<exists>j. wanted found j) \<longrightarrow>
           r = (False, found) \<and> (0 < n \<longrightarrow> \<not> should_print_of n (fst r)))
    \<and> length (snd r) = n \<and> (\<forall>i<n. found ! i \<longrightarrow> snd r ! i)
    \<and> (distinct (map c_str names) \<and> fst r \<longrightarrow>
           (\<forall>later. length later = n \<and> (\<forall>i<n. snd r ! i \<longrightarrow> later ! i) \<longrightarrow>
              mark_file filename names n later = (False, later)
              \<and> \<not> should_print_of n (fst (mark_file filename names n later))))"
proof -
  have eq: "strcmp filename (names ! k) = 0 \<longleftrightarrow> c_str (names ! k) = c_str filename" for k
    by (auto simp: strcmp_eq_0_iff)
  have p1: "should_print_of 0 (fst (mark_file filename [] 0 []))"
    by (simp add: should_print_of_def)
  have hit: "\<exists>j. wanted found j \<and> (\<forall>k<j. \<not> wanted found k)
                \<and> r = (True, found[j := True])" if "\<exists>j. wanted found j"
  proof -
    from that obtain j0 where "wanted found j0" ..
    then obtain j where j: "wanted found j" "\<forall>k<j. \<not> wanted found k"
      using first_index_ex [of "wanted found" j0] by blast
    have jn: "j < n" using j(1) by (simp add: wanted_def)
    have "mark_file_loop 0 filename names n found = (True, found[j := True])"
    proof (rule mark_file_loop_hit)
      show "0 \<le> j" by simp
      show "j < n" by (rule jn)
      show "strcmp filename (names ! j) = 0" using j(1) by (simp add: wanted_def eq)
      show "\<not> found ! j" using j(1) by (simp add: wanted_def)
      show "\<forall>k. 0 \<le> k \<and> k < j \<longrightarrow> \<not> (strcmp filename (names ! k) = 0 \<and> \<not> found ! k)"
        using j(2) jn by (auto simp: wanted_def eq)
    qed
    then show ?thesis using j by (auto simp: r_def mark_file_def)
  qed
  have miss: "mark_file filename names n found = (False, found)"
    if "\<not> (\<exists>j. wanted found j)" for found
    unfolding mark_file_def using that
    by (intro mark_file_loop_miss) (auto simp: wanted_def eq)
  have p2: "(\<exists>j. wanted found j) \<longrightarrow>
           (\<exists>j. wanted found j \<and> (\<forall>k<j. \<not> wanted found k)
                \<and> r = (True, found[j := True]) \<and> should_print_of n (fst r))"
    using hit by (fastforce simp: should_print_of_def)
  have p3: "\<not> (\<exists>j. wanted found j) \<longrightarrow>
           r = (False, found) \<and> (0 < n \<longrightarrow> \<not> should_print_of n (fst r))"
    using miss [of found] by (auto simp: r_def should_print_of_def)
  have cases: "r = (False, found) \<or> (\<exists>j<n. \<not> found ! j \<and> r = (True, found[j := True]))"
    using hit miss [of found] by (cases "\<exists>j. wanted found j") (auto simp: r_def wanted_def)
  have p4: "length (snd r) = n \<and> (\<forall>i<n. found ! i \<longrightarrow> snd r ! i)"
    using cases len by (auto simp: n_def nth_list_update)
  have p5: "distinct (map c_str names) \<and> fst r \<longrightarrow>
           (\<forall>later. length later = n \<and> (\<forall>i<n. snd r ! i \<longrightarrow> later ! i) \<longrightarrow>
              mark_file filename names n later = (False, later)
              \<and> \<not> should_print_of n (fst (mark_file filename names n later)))"
  proof (intro impI allI, elim conjE)
    fix later
    assume d: "distinct (map c_str names)" and f: "fst r"
      and l: "length later = n" and m: "\<forall>i<n. snd r ! i \<longrightarrow> later ! i"
    from f hit miss [of found] obtain j where j: "wanted found j" "r = (True, found[j := True])"
      by (cases "\<exists>j. wanted found j") (auto simp: r_def)
    have jn: "j < n" and je: "c_str (names ! j) = c_str filename"
      using j(1) by (simp_all add: wanted_def)
    have lj: "later ! j" using m jn j(2) len by (simp add: n_def)
    have "\<not> wanted later k" for k
    proof
      assume w: "wanted later k"
      then have "k < n" "c_str (names ! k) = c_str (names ! j)" using je by (simp_all add: wanted_def)
      then have "k = j" using d jn by (auto simp: n_def distinct_conv_nth)
      then show False using w lj by (simp add: wanted_def)
    qed
    then have e: "mark_file filename names n later = (False, later)"
      using miss [of later] by blast
    have "0 < n" using jn by simp
    then show "mark_file filename names n later = (False, later)
        \<and> \<not> should_print_of n (fst (mark_file filename names n later))"
      using e by (simp add: should_print_of_def)
  qed
  show ?thesis using p1 p2 p3 p4 p5 by blast
qed

theorem mark_file_first_unflagged_witness:
  "length [False, False] = length [''b'', ''a'']
   \<and> distinct (map c_str [''b'', ''a''])
   \<and> mark_file ''a'' [''b'', ''a''] 2 [False, False] = (True, [False, True])
   \<and> mark_file ''a'' [''b'', ''a''] 2 [True, True] = (False, [True, True])
   \<and> \<not> should_print_of 2 (fst (mark_file ''a'' [''b'', ''a''] 2 [True, True]))"
proof -
  have h: "length [False, False] = length [''b'', ''a'']" by simp
  have d: "distinct (map c_str [''b'', ''a''])" by (simp add: c_str_Cons c_str_Nil)
  have e: "mark_file ''a'' [''b'', ''a''] (length [''b'', ''a'']) [False, False] = (True, [False, True])"
    by (simp add: mark_file_def mark_file_loop.simps)
  have f: "fst (mark_file ''a'' [''b'', ''a''] (length [''b'', ''a'']) [False, False])"
    using e by simp
  have m: "\<forall>i<length [''b'', ''a''].
             snd (mark_file ''a'' [''b'', ''a''] (length [''b'', ''a'']) [False, False]) ! i
             \<longrightarrow> [True, True] ! i"
    by (simp add: less_Suc_eq)
  have l: "length [True, True] = length [''b'', ''a'']" by simp
  have n: "length [''b'', ''a''] = 2" by simp
  have t: "mark_file ''a'' [''b'', ''a''] (length [''b'', ''a'']) [True, True] = (False, [True, True])
        \<and> \<not> should_print_of (length [''b'', ''a''])
              (fst (mark_file ''a'' [''b'', ''a''] (length [''b'', ''a'']) [True, True]))"
    using mark_file_first_unflagged [OF h, of "''a''"] d f l m by blast
  show ?thesis using h d e [unfolded n] t [unfolded n] by blast
qed

section \<open>The loop: rounds, fuel and the stream\<close>

lemma read_loop_walker_at:
  "walker_at k p w0 = Some w \<Longrightarrow> read_loop (k + n) p w0 = read_loop n p w"
proof (induction k arbitrary: w0)
  case 0
  then show ?case by simp
next
  case (Suc k)
  then show ?case by (cases "loop_body p w0") simp_all
qed

lemma read_loop_exit:
  "loop_body p w = Exit e w' \<Longrightarrow> read_loop (Suc n) p w = Some (Exit e w')"
  by simp

lemma fread_block_Some:
  assumes "fread_block f = Some (buffer, f')"
  shows "length buffer = 512" "data f' = data f" "pos f' = pos f + 512"
        "0 \<le> pos f" "pos f' \<le> int (length (data f))"
  using assms by (auto simp: fread_block_def BLOCK_SIZE_def split: if_splits)

lemma loop_body_header:
  assumes "fread_block (fin w) = Some (buffer, f)" "\<not> is_empty_block buffer"
  shows "loop_body p w =
     (case process_entry p buffer (w\<lparr>fin := f, blocks_read := wrap_int (blocks_read w + 1)\<rparr>) of
        Inl (e, w2) \<Rightarrow> Exit e w2
      | Inr w2 \<Rightarrow>
          if ftell (fin w2) > archive_size p then Exit UnexpectedEOF w2
          else Next (w2\<lparr>blocks_read :=
                 wrap_int (wrap_long (blocks_read w2 + blocks_count_of (oct2dec (hdr_size buffer))))\<rparr>))"
  using assms by (simp add: loop_body_def Let_def)

lemma process_entry_bad_magic:
  "is_tar_archive buffer = Inl e \<Longrightarrow> process_entry p buffer w = Inl (e, w)"
  by (simp add: process_entry_def Let_def)

text \<open>
  C5: when the block read at the head of a round is not all zero and its magic and
  version bytes are not the tag, the round ends the process with "not a tar archive";
  nothing is printed, written or flagged in that round, the walk returns this error for
  every amount of fuel that reaches the round, and the status is 2.
\<close>

theorem bad_magic_stops_walk:
  assumes "walker_at k p (initial_walker p f0) = Some w"
      and "fread_block (fin w) = Some (buffer, f)"
      and "\<not> is_empty_block buffer"
      and "\<not> (magic_field buffer = ''ustar '' \<and> version_field buffer = [CHR '' '', NUL])"
  shows "loop_body p w = Exit NotTarArchive (w\<lparr>fin := f, blocks_read := wrap_int (blocks_read w + 1)\<rparr>)
       \<and> read_archive (Suc (k + n)) p f0
           = Some (Inl (NotTarArchive, w\<lparr>fin := f, blocks_read := wrap_int (blocks_read w + 1)\<rparr>))
       \<and> exit_status (Inl (NotTarArchive, w\<lparr>fin := f, blocks_read := wrap_int (blocks_read w + 1)\<rparr>)) = 2"
proof -
  let ?w = "w\<lparr>fin := f, blocks_read := wrap_int (blocks_read w + 1)\<rparr>"
  have l: "length buffer = 512" using assms(2) by (rule fread_block_Some)
  have e: "''ustar  '' @ [NUL] = ''ustar '' @ [CHR '' '', NUL]" by simp
  have lm: "length (magic_field buffer) = length ''ustar ''"
    using l by (simp add: magic_field_def field_def)
  have "take 8 (drop 257 buffer) \<noteq> ''ustar  '' @ [NUL]"
    unfolding magic_version_split e append_eq_append_conv [OF disjI1 [OF lm]] using assms(4) .
  then have "is_tar_archive buffer \<noteq> Inr ()"
    using is_tar_archive_iff [OF l] by simp
  then have "is_tar_archive buffer = Inl NotTarArchive"
    using is_tar_archive_cases [of buffer] by simp
  then have "process_entry p buffer ?w = Inl (NotTarArchive, ?w)"
    by (rule process_entry_bad_magic)
  then have b: "loop_body p w = Exit NotTarArchive ?w"
    by (simp add: loop_body_header [OF assms(2,3)])
  have "read_loop (k + Suc n) p (initial_walker p f0) = read_loop (Suc n) p w"
    using assms(1) by (rule read_loop_walker_at)
  then have "read_loop (Suc (k + n)) p (initial_walker p f0) = Some (Exit NotTarArchive ?w)"
    using b by simp
  then have "read_archive (Suc (k + n)) p f0 = Some (Inl (NotTarArchive, ?w))"
    by (simp add: read_archive_def)
  then show ?thesis using b by (simp add: exit_status_def)
qed

lemma fread_block_first:
  "length b = 512 \<Longrightarrow>
   fread_block \<lparr>data = b @ rest, pos = 0\<rparr> = Some (b, \<lparr>data = b @ rest, pos = 512\<rparr>)"
  by (simp add: fread_block_def BLOCK_SIZE_def)

lemma fread_block_only:
  "length b = 512 \<Longrightarrow> fread_block \<lparr>data = b, pos = 0\<rparr> = Some (b, \<lparr>data = b, pos = 512\<rparr>)"
  using fread_block_first [of b "[]"] by simp

theorem bad_magic_stops_walk_witness:
  "read_archive (Suc 0) (example_params 512 [] LIST)
     \<lparr>data = example_header ''a'' ''0'' ''0'' [] (''ustar'' @ [NUL] @ ''00''), pos = 0\<rparr>
   = Some (Inl (NotTarArchive,
       \<lparr>fin = \<lparr>data = example_header ''a'' ''0'' ''0'' [] (''ustar'' @ [NUL] @ ''00''), pos = 512\<rparr>,
        files_found = [], first_empty = False, second_empty = False, blocks_read = 1,
        printed = [], warnings = [], disk = Map.empty\<rparr>))"
proof -
  let ?h = "example_header ''a'' ''0'' ''0'' [] (''ustar'' @ [NUL] @ ''00'')"
  let ?p = "example_params 512 [] LIST"
  let ?f = "\<lparr>data = ?h, pos = 0\<rparr>"
  have l: "length ?h = 512" by (simp add: length_example_header)
  have 1: "walker_at 0 ?p (initial_walker ?p ?f) = Some (initial_walker ?p ?f)" by simp
  have 2: "fread_block (fin (initial_walker ?p ?f)) = Some (?h, \<lparr>data = ?h, pos = 512\<rparr>)"
    using fread_block_only [OF l] by (simp add: initial_walker_def)
  have 3: "\<not> is_empty_block ?h" by (simp add: is_empty_block_example)
  have "magic_field ?h = ''ustar'' @ [NUL]"
    by (simp add: magic_field_example pad_def)
  then have 4: "\<not> (magic_field ?h = ''ustar '' \<and> version_field ?h = [CHR '' '', NUL])" by simp
  show ?thesis
    using bad_magic_stops_walk [OF 1 2 3 4, of 0]
    by (simp add: initial_walker_def example_params_def wrap_int_def)
qed

text \<open>
  A block that passes the magic check has a NUL at offset 264, so the name, the size and
  the other strings of its header end inside the buffer: what the model does at the end
  of a list (stop, as at a NUL) is never used for an entry that is processed. Only
  \<open>oct2dec\<close>, which the code calls before the magic check, can read past the buffer, on
  a block with no NUL after offset 124; its result is then dropped, the block failing the
  magic check.
\<close>

lemma header_strings_terminated:
  assumes "length buffer = 512" "is_tar_archive buffer = Inr ()"
  shows "buffer ! 264 = NUL"
    and "NUL \<in> set (hdr_name buffer)"
    and "NUL \<in> set (hdr_size buffer)"
    and "NUL \<in> set (hdr_typeflag buffer)"
proof -
  have "take 8 (drop 257 buffer) = ''ustar  '' @ [NUL]"
    using is_tar_archive_iff [OF assms(1)] assms(2) by simp
  then have "take 8 (drop 257 buffer) ! 7 = (''ustar  '' @ [NUL]) ! 7" by simp
  then show n: "buffer ! 264 = NUL" using assms(1) by simp
  have "drop k buffer ! (264 - k) = NUL" if "k \<le> 264" for k
    using that n assms(1) by simp
  moreover have "264 - k < length (drop k buffer)" if "k \<le> 264" for k
    using that assms(1) by simp
  ultimately have d: "NUL \<in> set (drop k buffer)" if "k \<le> 264" for k
    using that by (metis nth_mem)
  show "NUL \<in> set (hdr_name buffer)" using d [of 0] by (simp add: hdr_name_def field_ptr_def)
  show "NUL \<in> set (hdr_size buffer)" using d [of 124] by (simp add: hdr_size_def field_ptr_def)
  show "NUL \<in> set (hdr_typeflag buffer)"
    using d [of 156] by (simp add: hdr_typeflag_def field_ptr_def)
qed

section \<open>The offset of the walk\<close>

declare extract_loop.simps [simp del]

lemma extract_loop_stream:
  "extract_loop i bc bl f wr = Inr (f', wr') \<Longrightarrow> data f' = data f \<and> pos f \<le> pos f'"
proof (induction i bc bl f wr rule: extract_loop.induct)
  case (1 i bc bl f wr)
  show ?case
  proof (cases "i < bc")
    case False
    then show ?thesis using "1.prems" by (subst (asm) extract_loop.simps) simp
  next
    case True
    show ?thesis
    proof (cases "fread_block f")
      case None
      then show ?thesis using "1.prems" True by (subst (asm) extract_loop.simps) simp
    next
      case (Some a)
      obtain buffer f1 where a: "a = (buffer, f1)" by (cases a)
      have r: "fread_block f = Some (buffer, f1)" using Some a by simp
      have "extract_loop (wrap_int (i + 1)) bc bl f1
              (wr @ (if wrap_int (i + 1) = bc then take (nat bl) buffer else take 512 buffer))
            = Inr (f', wr')"
        using "1.prems" True r by (subst (asm) extract_loop.simps) simp
      then have "data f' = data f1 \<and> pos f1 \<le> pos f'"
        using True r by (intro "1.IH") auto
      then show ?thesis using fread_block_Some [OF r] by simp
    qed
  qed
qed

lemma fseek_cur_stream:
  "data (fseek_cur f off) = data f" "0 \<le> pos f \<Longrightarrow> 0 \<le> pos (fseek_cur f off)"
  by (simp_all add: fseek_cur_def)

lemma extract_file_stream:
  "extract_file p buffer w = Inr w2 \<Longrightarrow>
     data (fin w2) = data (fin w) \<and> pos (fin w) \<le> pos (fin w2)"
  by (auto simp: extract_file_def Let_def split: if_splits sum.splits dest: extract_loop_stream)

lemma process_entry_stream:
  assumes "process_entry p buffer w = Inr w2" "0 \<le> pos (fin w)"
  shows "data (fin w2) = data (fin w) \<and> 0 \<le> pos (fin w2)"
  using assms
  by (auto simp: process_entry_def Let_def fseek_cur_stream
           split: if_splits sum.splits prod.splits dest!: extract_file_stream)

lemma loop_body_Next_stream:
  assumes "loop_body p w = Next w'"
      and "archive_size p = int (length (data (fin w)))"
  shows "data (fin w') = data (fin w) \<and> 0 \<le> pos (fin w') \<and> pos (fin w') \<le> int (length (data (fin w)))"
proof (cases "fread_block (fin w)")
  case None
  then show ?thesis using assms(1) by (simp add: loop_body_def)
next
  case (Some a)
  obtain buffer f where r: "fread_block (fin w) = Some (buffer, f)" using Some by (cases a) simp
  note fr = fread_block_Some [OF r]
  let ?w1 = "w\<lparr>fin := f, blocks_read := wrap_int (blocks_read w + 1)\<rparr>"
  show ?thesis
  proof (cases "is_empty_block buffer")
    case True
    then have "fin w' = f" using assms(1) r by (auto simp: loop_body_def Let_def split: if_splits)
    then show ?thesis using fr by simp
  next
    case False
    from assms(1) obtain w2 where w2: "process_entry p buffer ?w1 = Inr w2"
        and le: "\<not> archive_size p < ftell (fin w2)" and f': "fin w' = fin w2"
      unfolding loop_body_header [OF r False]
      by (auto split: sum.splits prod.splits if_splits)
    have "data (fin w2) = data (fin ?w1) \<and> 0 \<le> pos (fin w2)"
      using w2 fr by (intro process_entry_stream) simp_all
    then show ?thesis using le f' fr assms(2) by (simp add: ftell_def)
  qed
qed

lemma walker_at_stream:
  assumes "walker_at n p w0 = Some w"
      and "archive_size p = int (length (data (fin w0)))"
      and "0 \<le> pos (fin w0)" "pos (fin w0) \<le> int (length (data (fin w0)))"
  shows "data (fin w) = data (fin w0) \<and> 0 \<le> pos (fin w) \<and> pos (fin w) \<le> int (length (data (fin w0)))"
  using assms
proof (induction n arbitrary: w0)
  case 0
  then show ?case by simp
next
  case (Suc n)
  from Suc.prems(1) obtain w1 where b: "loop_body p w0 = Next w1" and a: "walker_at n p w1 = Some w"
    by (cases "loop_body p w0") simp_all
  note s = loop_body_Next_stream [OF b Suc.prems(2)]
  have "data (fin w) = data (fin w1) \<and> 0 \<le> pos (fin w) \<and> pos (fin w) \<le> int (length (data (fin w1)))"
    using a s Suc.prems(2) by (intro Suc.IH) simp_all
  then show ?case using s by simp
qed

text \<open>
  C8: in a round that processes an entry, if the position after the skip or the
  extraction is past the size of the archive, the round ends the process with
  "unexpected EOF", with the stream where the skip or the extraction left it: no block is
  read after it. So on a walk over an archive whose size was measured as \<open>main\<close> does,
  the position at the start of every round is between 0 and the length of the stream.
\<close>

theorem offset_within_archive:
  "(fread_block (fin w) = Some (buffer, f) \<and> \<not> is_empty_block buffer
      \<and> process_entry p buffer (w\<lparr>fin := f, blocks_read := wrap_int (blocks_read w + 1)\<rparr>) = Inr w2
      \<and> archive_size p < ftell (fin w2)
     \<longrightarrow> loop_body p w = Exit UnexpectedEOF w2
         \<and> read_loop (Suc n) p w = Some (Exit UnexpectedEOF w2))
   \<and> (archive_size p = int (length archive)
      \<and> walker_at k p (initial_walker p \<lparr>data = archive, pos = 0\<rparr>) = Some w'
     \<longrightarrow> data (fin w') = archive \<and> 0 \<le> ftell (fin w') \<and> ftell (fin w') \<le> int (length archive)
         \<and> ftell (fin w') \<le> archive_size p)"
proof -
  have 1: "loop_body p w = Exit UnexpectedEOF w2 \<and> read_loop (Suc n) p w = Some (Exit UnexpectedEOF w2)"
    if r: "fread_block (fin w) = Some (buffer, f)" and z: "\<not> is_empty_block buffer"
    and e: "process_entry p buffer (w\<lparr>fin := f, blocks_read := wrap_int (blocks_read w + 1)\<rparr>) = Inr w2"
    and g: "archive_size p < ftell (fin w2)"
  proof -
    have b: "loop_body p w = Exit UnexpectedEOF w2"
      using e g by (simp add: loop_body_header [OF r z])
    then show ?thesis by simp
  qed
  have 2: "data (fin w') = archive \<and> 0 \<le> ftell (fin w') \<and> ftell (fin w') \<le> int (length archive)
         \<and> ftell (fin w') \<le> archive_size p"
    if a: "archive_size p = int (length archive)"
    and w: "walker_at k p (initial_walker p \<lparr>data = archive, pos = 0\<rparr>) = Some w'"
  proof -
    have "data (fin w') = data (fin (initial_walker p \<lparr>data = archive, pos = 0\<rparr>))
        \<and> 0 \<le> pos (fin w')
        \<and> pos (fin w') \<le> int (length (data (fin (initial_walker p \<lparr>data = archive, pos = 0\<rparr>))))"
      using w a by (intro walker_at_stream) (simp_all add: initial_walker_def)
    then show ?thesis using a by (simp add: initial_walker_def ftell_def)
  qed
  show ?thesis using 1 2 by blast
qed

lemma process_entry_example_list:
  assumes "c \<noteq> NUL" "NUL \<notin> set n" "length n < 99" "NUL \<notin> set s" "length s < 12"
      and "action p = LIST" "files_args p = []"
  shows "process_entry p (example_header (c # n) s ''0'' [] ''ustar  '') w
       = Inr (w\<lparr>printed := printed w @ [c # n],
                 fin := fseek_cur (fin w) (wrap_long (512 * blocks_count_of (oct2dec s)))\<rparr>)"
proof -
  let ?h = "example_header (c # n) s ''0'' [] ''ustar  ''"
  have 1: "is_tar_archive ?h = Inr ()" using assms by (intro is_tar_archive_example) simp_all
  have 2: "is_regular_file ?h = Inr ()" using assms by (intro is_regular_file_example) simp_all
  have 3: "c_str (hdr_name ?h) = c # n" using assms by (intro c_str_name_example) auto
  have 4: "oct2dec (hdr_size ?h) = oct2dec s" using assms by (intro oct2dec_size_example) simp_all
  show ?thesis
    by (simp add: process_entry_def 1 2 3 4 assms(6,7) mark_file_def should_print_of_def BLOCK_SIZE_def)
qed

theorem offset_within_archive_witness:
  "read_loop (Suc 0) (example_params 512 [] LIST)
     (initial_walker (example_params 512 [] LIST)
        \<lparr>data = example_header ''a'' ''00000002000'' ''0'' [] ''ustar  '', pos = 0\<rparr>)
   = Some (Exit UnexpectedEOF
       \<lparr>fin = \<lparr>data = example_header ''a'' ''00000002000'' ''0'' [] ''ustar  '', pos = 1536\<rparr>,
        files_found = [], first_empty = False, second_empty = False, blocks_read = 1,
        printed = [''a''], warnings = [], disk = Map.empty\<rparr>)
   \<and> walker_at (Suc 0) (example_params 512 [] LIST)
       (initial_walker (example_params 512 [] LIST) \<lparr>data = zero_block, pos = 0\<rparr>)
     = Some \<lparr>fin = \<lparr>data = zero_block, pos = 512\<rparr>,
        files_found = [], first_empty = True, second_empty = False, blocks_read = 1,
        printed = [], warnings = [], disk = Map.empty\<rparr>
   \<and> ftell \<lparr>data = zero_block, pos = 512\<rparr> \<le> int (length zero_block)"
proof -
  let ?h = "example_header ''a'' ''00000002000'' ''0'' [] ''ustar  ''"
  let ?p = "example_params 512 [] LIST"
  let ?w = "initial_walker ?p \<lparr>data = ?h, pos = 0\<rparr>"
  let ?w2 = "\<lparr>fin = \<lparr>data = ?h, pos = 1536\<rparr>,
        files_found = [], first_empty = False, second_empty = False, blocks_read = 1,
        printed = [''a''], warnings = [], disk = Map.empty\<rparr>"
  let ?z = "initial_walker ?p \<lparr>data = zero_block, pos = 0\<rparr>"
  let ?z1 = "\<lparr>fin = \<lparr>data = zero_block, pos = 512\<rparr>,
        files_found = [], first_empty = True, second_empty = False, blocks_read = 1,
        printed = [], warnings = [], disk = Map.empty\<rparr>"
  have l: "length ?h = 512" by (simp add: length_example_header)
  have r: "fread_block (fin ?w) = Some (?h, \<lparr>data = ?h, pos = 512\<rparr>)"
    using fread_block_only [OF l] by (simp add: initial_walker_def)
  have z: "\<not> is_empty_block ?h" by (simp add: is_empty_block_example)
  have o: "oct2dec ''00000002000'' = 1024" by code_simp
  have b: "blocks_count_of 1024 = 2"
    by (simp add: blocks_count_of_def wrap_long_def c_div_def BLOCK_SIZE_def)
  have e: "process_entry ?p ?h (?w\<lparr>fin := \<lparr>data = ?h, pos = 512\<rparr>,
              blocks_read := wrap_int (blocks_read ?w + 1)\<rparr>) = Inr ?w2"
    by (subst process_entry_example_list)
       (simp_all add: example_params_def initial_walker_def o b fseek_cur_def wrap_long_def wrap_int_def)
  have g: "archive_size ?p < ftell (fin ?w2)" by (simp add: example_params_def ftell_def)
  have rz: "fread_block (fin ?z) = Some (zero_block, \<lparr>data = zero_block, pos = 512\<rparr>)"
    using fread_block_only [OF length_zero_block] by (simp add: initial_walker_def)
  have k: "walker_at (Suc 0) ?p ?z = Some ?z1"
    by (simp add: loop_body_def rz is_empty_block_zero)
       (simp add: initial_walker_def example_params_def wrap_int_def)
  have a: "archive_size ?p = int (length zero_block)"
    by (simp add: example_params_def length_zero_block)
  show ?thesis
    using offset_within_archive [of ?w ?h "\<lparr>data = ?h, pos = 512\<rparr>" ?p ?w2 0 zero_block "Suc 0" ?z1]
      r z e g a k
    by simp
qed

section \<open>After the loop: the names that were not found\<close>

declare report_missing_loop.simps [simp del] mark_file_loop.simps [simp del]

lemma report_missing_loop_eq:
  "report_missing_loop i args n found seen ws =
     (seen \<or> (\<exists>k. i \<le> k \<and> k < n \<and> \<not> found ! k),
      ws @ map (\<lambda>k. NotFound (c_str (args ! k))) (filter (\<lambda>k. \<not> found ! k) [i..<n]))"
proof (induction "n - i" arbitrary: i seen ws)
  case 0
  then have "n \<le> i" by simp
  then have e: "(\<exists>k. i \<le> k \<and> k < n \<and> \<not> found ! k) = False" by auto
  have "report_missing_loop i args n found seen ws = (seen, ws)"
    using \<open>n \<le> i\<close> by (subst report_missing_loop.simps) simp
  then show ?case unfolding e using \<open>n \<le> i\<close> by simp
next
  case (Suc d)
  then have lt: "i < n" by simp
  have u: "[i..<n] = i # [Suc i..<n]" using lt by (rule upt_conv_Cons)
  have ih: "report_missing_loop (Suc i) args n found seen' ws' =
     (seen' \<or> (\<exists>k. Suc i \<le> k \<and> k < n \<and> \<not> found ! k),
      ws' @ map (\<lambda>k. NotFound (c_str (args ! k))) (filter (\<lambda>k. \<not> found ! k) [Suc i..<n]))" for seen' ws'
    using Suc by (intro Suc.hyps(1)) simp
  have ex: "(\<exists>k. i \<le> k \<and> k < n \<and> \<not> found ! k) \<longleftrightarrow> \<not> found ! i \<or> (\<exists>k. Suc i \<le> k \<and> k < n \<and> \<not> found ! k)"
  proof -
    have "i \<le> k \<longleftrightarrow> k = i \<or> Suc i \<le> k" for k by auto
    then show ?thesis using lt by auto
  qed
  show ?case
    by (subst report_missing_loop.simps) (simp add: lt ih u ex)
qed

lemma report_missing_files_eq:
  "report_missing_files args n found =
     (filter (\<lambda>k. \<not> found ! k) [0..<n] \<noteq> [],
      map (\<lambda>k. NotFound (c_str (args ! k))) (filter (\<lambda>k. \<not> found ! k) [0..<n]))"
  by (auto simp: report_missing_files_def report_missing_loop_eq filter_empty_conv)

lemma mark_file_loop_length:
  "length (snd (mark_file_loop i a args n found)) = length found"
proof (induction "n - i" arbitrary: i)
  case 0
  then show ?case by (subst mark_file_loop.simps) simp
next
  case (Suc d)
  then have "length (snd (mark_file_loop (Suc i) a args n found)) = length found"
    by (intro Suc.hyps(1)) simp
  then show ?case by (subst mark_file_loop.simps) simp
qed

lemma extract_file_flags:
  "extract_file p buffer w = Inr w2 \<Longrightarrow> files_found w2 = files_found w"
  by (auto simp: extract_file_def Let_def split: if_splits sum.splits)

lemma process_entry_flags:
  assumes "process_entry p buffer w = Inr w2"
  shows "length (files_found w2) = length (files_found w)"
proof -
  obtain hit found
    where m: "mark_file (hdr_name buffer) (files_args p) (length (files_args p)) (files_found w)
              = (hit, found)"
    by (cases "mark_file (hdr_name buffer) (files_args p) (length (files_args p)) (files_found w)")
  have "length found = length (files_found w)"
    using mark_file_loop_length [of 0 "hdr_name buffer" "files_args p" "length (files_args p)" "files_found w"] m
    by (simp add: mark_file_def)
  then show ?thesis using assms m
    by (auto simp: process_entry_def Let_def split: if_splits sum.splits dest!: extract_file_flags)
qed

lemma loop_body_flags:
  assumes "loop_body p w = Next w' \<or> loop_body p w = Break w' \<or> loop_body p w = LoopExit w'"
  shows "length (files_found w') = length (files_found w)"
proof (cases "fread_block (fin w)")
  case None
  then show ?thesis using assms by (auto simp: loop_body_def)
next
  case (Some a)
  obtain buffer f where r: "fread_block (fin w) = Some (buffer, f)" using Some by (cases a) simp
  show ?thesis
  proof (cases "is_empty_block buffer")
    case True
    then show ?thesis using assms r by (auto simp: loop_body_def Let_def split: if_splits)
  next
    case False
    from assms obtain w2
      where "process_entry p buffer (w\<lparr>fin := f, blocks_read := wrap_int (blocks_read w + 1)\<rparr>) = Inr w2"
        and "files_found w' = files_found w2"
      unfolding loop_body_header [OF r False]
      by (auto split: sum.splits prod.splits if_splits)
    then show ?thesis using process_entry_flags by fastforce
  qed
qed

lemma read_loop_flags:
  assumes "read_loop fuel p w0 = Some (Break w) \<or> read_loop fuel p w0 = Some (LoopExit w)"
  shows "length (files_found w) = length (files_found w0)"
  using assms
proof (induction fuel arbitrary: w0)
  case 0
  then show ?case by simp
next
  case (Suc n)
  show ?case
  proof (cases "loop_body p w0")
    case (Next w1)
    then have "read_loop n p w1 = Some (Break w) \<or> read_loop n p w1 = Some (LoopExit w)"
      using Suc.prems by simp
    then have "length (files_found w) = length (files_found w1)" by (rule Suc.IH)
    then show ?thesis using loop_body_flags [of p w0 w1] Next by simp
  next
    case (Break w1)
    then show ?thesis using Suc.prems loop_body_flags [of p w0 w1] by auto
  next
    case (LoopExit w1)
    then show ?thesis using Suc.prems loop_body_flags [of p w0 w1] by auto
  next
    case (Exit e w1)
    then show ?thesis using Suc.prems by simp
  qed
qed

text \<open>
  C9: when the loop ends without \<open>errx\<close> (at the second zero block or at the end of the
  stream), every requested name has its flag, and the requested names whose flag is not
  set are reported one by one, in the order of the command line, after the warnings given
  so far; the process then fails with status 2 when there is such a name and returns
  with status 0 when there is none, as when no name was requested.
\<close>

theorem missing_names_reported_after_walk:
  assumes "read_loop fuel p (initial_walker p f0) = Some (Break w)
         \<or> read_loop fuel p (initial_walker p f0) = Some (LoopExit w)"
  shows "length (files_found w) = length (files_args p)
       \<and> (\<exists>w'. read_archive fuel p f0 =
             Some (if filter (\<lambda>i. \<not> files_found w ! i) [0..<length (files_args p)] = []
                   then Inr w' else Inl (MissingFiles, w'))
          \<and> warnings w' = warnings w
               @ (if first_empty w \<and> \<not> second_empty w then [LoneZeroBlock (blocks_read w)] else [])
               @ map (\<lambda>i. NotFound (c_str (files_args p ! i)))
                   (filter (\<lambda>i. \<not> files_found w ! i) [0..<length (files_args p)])
          \<and> printed w' = printed w \<and> disk w' = disk w \<and> files_found w' = files_found w
          \<and> map_option exit_status (read_archive fuel p f0) =
               Some (if filter (\<lambda>i. \<not> files_found w ! i) [0..<length (files_args p)] = []
                     then 0 else 2))"
proof -
  have l: "length (files_found w) = length (files_args p)"
    using read_loop_flags [OF assms] by (simp add: initial_walker_def)
  have r: "read_archive fuel p f0 = Some (after_loop p w)"
    using assms by (auto simp: read_archive_def)
  show ?thesis
    unfolding r using l
    by (simp add: after_loop_def Let_def report_missing_files_eq exit_status_def)
qed

section \<open>Rounds on example archives\<close>

lemma loop_body_zero_first:
  assumes "fread_block (fin w) = Some (b, f)" "is_empty_block b" "\<not> first_empty w"
  shows "loop_body p w
       = Next (w\<lparr>fin := f, blocks_read := wrap_int (blocks_read w + 1), first_empty := True\<rparr>)"
  using assms by (simp add: loop_body_def)

lemma loop_body_zero_second:
  assumes "fread_block (fin w) = Some (b, f)" "is_empty_block b" "first_empty w"
  shows "loop_body p w
       = Break (w\<lparr>fin := f, blocks_read := wrap_int (blocks_read w + 1), second_empty := True\<rparr>)"
  using assms by (simp add: loop_body_def)

lemma mark_file_loop_c_str:
  "c_str a = c_str b \<Longrightarrow>
   mark_file_loop i a args n found = mark_file_loop i b args n found"
proof (induction "n - i" arbitrary: i)
  case 0
  then show ?case by (subst (1 2) mark_file_loop.simps) simp
next
  case (Suc d)
  then have "mark_file_loop (Suc i) a args n found = mark_file_loop (Suc i) b args n found"
    by (intro Suc.hyps(1)) simp_all
  then show ?case using Suc.prems
    by (subst (1 2) mark_file_loop.simps) (simp add: strcmp_eq_0_iff)
qed

lemma process_entry_example:
  assumes "c \<noteq> NUL" "NUL \<notin> set n" "length n < 99" "NUL \<notin> set s" "length s < 12"
      and "action p = LIST"
      and "mark_file (c # n) (files_args p) (length (files_args p)) (files_found w) = (hit, found)"
  shows "process_entry p (example_header (c # n) s ''0'' [] ''ustar  '') w
       = Inr (w\<lparr>files_found := found,
                 printed := (if should_print_of (length (files_args p)) hit
                             then printed w @ [c # n] else printed w),
                 fin := fseek_cur (fin w) (wrap_long (512 * blocks_count_of (oct2dec s)))\<rparr>)"
proof -
  let ?h = "example_header (c # n) s ''0'' [] ''ustar  ''"
  have 1: "is_tar_archive ?h = Inr ()" using assms by (intro is_tar_archive_example) simp_all
  have 2: "is_regular_file ?h = Inr ()" using assms by (intro is_regular_file_example) simp_all
  have 3: "c_str (hdr_name ?h) = c # n" using assms by (intro c_str_name_example) auto
  have 4: "oct2dec (hdr_size ?h) = oct2dec s" using assms by (intro oct2dec_size_example) simp_all
  have "c_str (hdr_name ?h) = c_str (c # n)" using 3 assms(1,2) by (simp add: c_str_no_NUL)
  then have "mark_file_loop 0 (hdr_name ?h) (files_args p) (length (files_args p)) (files_found w)
           = mark_file_loop 0 (c # n) (files_args p) (length (files_args p)) (files_found w)"
    by (rule mark_file_loop_c_str)
  then have 5: "mark_file (hdr_name ?h) (files_args p) (length (files_args p)) (files_found w) = (hit, found)"
    using assms(7) by (simp only: mark_file_def)
  show ?thesis
    by (simp add: process_entry_def 1 2 3 4 5 assms(6) BLOCK_SIZE_def)
qed

lemma oct2dec_zeros: "oct2dec ''00000000000'' = 0"
  by code_simp

lemma blocks_count_of_0: "blocks_count_of 0 = 0"
  by (simp add: blocks_count_of_def wrap_long_def c_div_def BLOCK_SIZE_def)

theorem missing_names_reported_after_walk_witness:
  "read_archive (Suc (Suc (Suc 0))) (example_params 1536 [''a'', ''b''] LIST)
     \<lparr>data = example_header ''a'' ''00000000000'' ''0'' [] ''ustar  '' @ zero_block @ zero_block,
      pos = 0\<rparr>
   = Some (Inl (MissingFiles,
       \<lparr>fin = \<lparr>data = example_header ''a'' ''00000000000'' ''0'' [] ''ustar  ''
                       @ zero_block @ zero_block, pos = 1536\<rparr>,
        files_found = [True, False], first_empty = True, second_empty = True, blocks_read = 3,
        printed = [''a''], warnings = [NotFound ''b''], disk = Map.empty\<rparr>))"
proof -
  let ?h = "example_header ''a'' ''00000000000'' ''0'' [] ''ustar  ''"
  let ?d = "?h @ zero_block @ zero_block"
  let ?p = "example_params 1536 [''a'', ''b''] LIST"
  let ?w0 = "initial_walker ?p \<lparr>data = ?d, pos = 0\<rparr>"
  let ?w1 = "\<lparr>fin = \<lparr>data = ?d, pos = 512\<rparr>,
        files_found = [True, False], first_empty = False, second_empty = False, blocks_read = 1,
        printed = [''a''], warnings = [], disk = Map.empty\<rparr>"
  let ?w2 = "\<lparr>fin = \<lparr>data = ?d, pos = 1024\<rparr>,
        files_found = [True, False], first_empty = True, second_empty = False, blocks_read = 2,
        printed = [''a''], warnings = [], disk = Map.empty\<rparr>"
  let ?w3 = "\<lparr>fin = \<lparr>data = ?d, pos = 1536\<rparr>,
        files_found = [True, False], first_empty = True, second_empty = True, blocks_read = 3,
        printed = [''a''], warnings = [], disk = Map.empty\<rparr>"
  have l: "length ?h = 512" by (simp add: length_example_header)
  have z: "\<not> is_empty_block ?h" by (simp add: is_empty_block_example)
  have r0: "fread_block (fin ?w0) = Some (?h, \<lparr>data = ?d, pos = 512\<rparr>)"
    using fread_block_first [OF l, of "zero_block @ zero_block"] by (simp add: initial_walker_def)
  have r1: "fread_block (fin ?w1) = Some (zero_block, \<lparr>data = ?d, pos = 1024\<rparr>)"
    using fread_block_at [OF l length_zero_block, of zero_block] by simp
  have r2: "fread_block (fin ?w2) = Some (zero_block, \<lparr>data = ?d, pos = 1536\<rparr>)"
    using fread_block_at [of "?h @ zero_block" 1024 zero_block "[]"] l length_zero_block by simp
  have m: "mark_file ''a'' [''a'', ''b''] (Suc (Suc 0)) [False, False] = (True, [True, False])"
    by (simp add: mark_file_def mark_file_loop.simps)
  have e: "process_entry ?p ?h (?w0\<lparr>fin := \<lparr>data = ?d, pos = 512\<rparr>,
              blocks_read := wrap_int (blocks_read ?w0 + 1)\<rparr>) = Inr ?w1"
    by (subst process_entry_example [where hit = True and found = "[True, False]"])
       (simp_all add: example_params_def initial_walker_def m should_print_of_def
          oct2dec_zeros blocks_count_of_0 fseek_cur_def wrap_long_def wrap_int_def)
  have s0: "loop_body ?p ?w0 = Next ?w1"
    unfolding loop_body_header [OF r0 z] e
    by (simp add: ftell_def example_params_def
          oct2dec_size_example oct2dec_zeros blocks_count_of_0 wrap_long_def wrap_int_def)
  have s1: "loop_body ?p ?w1 = Next ?w2"
    by (simp add: loop_body_zero_first [OF r1 is_empty_block_zero] wrap_int_def)
  have s2: "loop_body ?p ?w2 = Break ?w3"
    by (simp add: loop_body_zero_second [OF r2 is_empty_block_zero] wrap_int_def)
  have lp: "read_loop (Suc (Suc (Suc 0))) ?p (initial_walker ?p \<lparr>data = ?d, pos = 0\<rparr>) = Some (Break ?w3)"
    by (simp add: s0 s1 s2)
  have ra: "read_archive (Suc (Suc (Suc 0))) ?p \<lparr>data = ?d, pos = 0\<rparr>
       = Some (after_loop ?p ?w3)"
    using lp by (simp add: read_archive_def)
  have al: "after_loop ?p ?w3 = Inl (MissingFiles, ?w3\<lparr>warnings := [NotFound ''b'']\<rparr>)"
    by (simp add: after_loop_def report_missing_files_eq example_params_def upt_rec
          c_str_Cons c_str_Nil)
  show ?thesis
    using missing_names_reported_after_walk [OF disjI1 [OF lp]] ra al by simp
qed

section \<open>Two zero blocks that are not neighbours\<close>

text \<open>
  C1 evaluated on the code: an archive of a zero block, the entry \<open>a\<close> (size 0), a second
  zero block and the entry \<open>b\<close>. The walk does not end at the first zero block, which is
  followed by a header, but \<open>first_empty\<close> stays set, so the second zero block, which
  does not follow a zero block, is taken for the end of the archive: the loop is left by
  the \<open>break\<close>, entry \<open>b\<close> is never listed, no lone zero block is warned about
  and the process succeeds.
\<close>

theorem separated_zero_blocks_end_walk:
  "main (Suc (Suc (Suc 0)))
     (zero_block @ example_header ''a'' ''00000000000'' ''0'' [] ''ustar  ''
        @ zero_block @ example_header ''b'' ''00000000000'' ''0'' [] ''ustar  '')
     [] LIST False (\<lambda>name. True)
   = Some (Inr
       \<lparr>fin = \<lparr>data = zero_block @ example_header ''a'' ''00000000000'' ''0'' [] ''ustar  ''
                       @ zero_block @ example_header ''b'' ''00000000000'' ''0'' [] ''ustar  '',
               pos = 1536\<rparr>,
        files_found = [], first_empty = True, second_empty = True, blocks_read = 3,
        printed = [''a''], warnings = [], disk = Map.empty\<rparr>)"
proof -
  let ?a = "example_header ''a'' ''00000000000'' ''0'' [] ''ustar  ''"
  let ?b = "example_header ''b'' ''00000000000'' ''0'' [] ''ustar  ''"
  let ?d = "zero_block @ ?a @ zero_block @ ?b"
  let ?p = "example_params 2048 [] LIST"
  let ?w0 = "initial_walker ?p \<lparr>data = ?d, pos = 0\<rparr>"
  let ?w1 = "\<lparr>fin = \<lparr>data = ?d, pos = 512\<rparr>,
        files_found = [], first_empty = True, second_empty = False, blocks_read = 1,
        printed = [], warnings = [], disk = Map.empty\<rparr>"
  let ?w2 = "\<lparr>fin = \<lparr>data = ?d, pos = 1024\<rparr>,
        files_found = [], first_empty = True, second_empty = False, blocks_read = 2,
        printed = [''a''], warnings = [], disk = Map.empty\<rparr>"
  let ?w3 = "\<lparr>fin = \<lparr>data = ?d, pos = 1536\<rparr>,
        files_found = [], first_empty = True, second_empty = True, blocks_read = 3,
        printed = [''a''], warnings = [], disk = Map.empty\<rparr>"
  have la: "length ?a = 512" by (simp add: length_example_header)
  have lb: "length ?b = 512" by (simp add: length_example_header)
  have z: "\<not> is_empty_block ?a" by (simp add: is_empty_block_example)
  have r0: "fread_block (fin ?w0) = Some (zero_block, \<lparr>data = ?d, pos = 512\<rparr>)"
    using fread_block_first [OF length_zero_block, of "?a @ zero_block @ ?b"]
    by (simp add: initial_walker_def)
  have r1: "fread_block (fin ?w1) = Some (?a, \<lparr>data = ?d, pos = 1024\<rparr>)"
    using fread_block_at [OF length_zero_block la, of "zero_block @ ?b"] by simp
  have r2: "fread_block (fin ?w2) = Some (zero_block, \<lparr>data = ?d, pos = 1536\<rparr>)"
    using fread_block_at [of "zero_block @ ?a" 1024 zero_block ?b] la length_zero_block by simp
  have s0: "loop_body ?p ?w0 = Next ?w1"
    by (subst loop_body_zero_first [OF r0 is_empty_block_zero])
       (simp_all add: initial_walker_def example_params_def wrap_int_def)
  have e: "process_entry ?p ?a (?w1\<lparr>fin := \<lparr>data = ?d, pos = 1024\<rparr>,
              blocks_read := wrap_int (blocks_read ?w1 + 1)\<rparr>) = Inr ?w2"
    by (subst process_entry_example_list)
       (simp_all add: example_params_def oct2dec_zeros blocks_count_of_0 fseek_cur_def
          wrap_long_def wrap_int_def)
  have s1: "loop_body ?p ?w1 = Next ?w2"
    unfolding loop_body_header [OF r1 z] e
    by (simp add: ftell_def example_params_def
          oct2dec_size_example oct2dec_zeros blocks_count_of_0 wrap_long_def wrap_int_def)
  have s2: "loop_body ?p ?w2 = Break ?w3"
    by (simp add: loop_body_zero_second [OF r2 is_empty_block_zero] wrap_int_def)
  have lp: "read_loop (Suc (Suc (Suc 0))) ?p ?w0 = Some (Break ?w3)"
    by (simp add: s0 s1 s2)
  have al: "after_loop ?p ?w3 = Inr ?w3"
    by (simp add: after_loop_def report_missing_files_eq example_params_def)
  have ra: "read_archive (Suc (Suc (Suc 0))) ?p \<lparr>data = ?d, pos = 0\<rparr> = Some (Inr ?w3)"
    using lp al by (simp add: read_archive_def)
  have "length ?d = 2048" by (simp add: la lb length_zero_block)
  then have "main (Suc (Suc (Suc 0))) ?d [] LIST False (\<lambda>name. True)
      = read_archive (Suc (Suc (Suc 0))) ?p \<lparr>data = ?d, pos = 0\<rparr>"
    by (simp add: main_def get_archive_size_def example_params_def)
  then show ?thesis using ra by simp
qed

section \<open>The decoder on the size field of a header\<close>

text \<open>
  The decoder as the walk calls it, on \<open>header->size\<close> of a header whose size field is
  eleven digits and a NUL, as the usual archivers write it: the code stops at the NUL of
  the field.
\<close>

lemma size_field_example:
  "length n \<le> 100 \<Longrightarrow> length s \<le> 12 \<Longrightarrow>
   size_field (example_header n s t l g) = pad 12 s"
  using hdr_size_example [of n s t l g]
  by (simp add: size_field_def field_def hdr_size_def field_ptr_def length_pad)

lemma oct2dec_on_header:
  "size_field (example_header ''a'' ''00000000144'' ''0'' [] ''ustar  '') = ''00000000144'' @ [NUL]
   \<and> oct2dec (hdr_size (example_header ''a'' ''00000000144'' ''0'' [] ''ustar  '')) = 100
   \<and> spec_decode (size_field (example_header ''a'' ''00000000144'' ''0'' [] ''ustar  '')) = 752"
proof -
  let ?h = "example_header ''a'' ''00000000144'' ''0'' [] ''ustar  ''"
  have f: "size_field ?h = ''00000000144'' @ [NUL]"
    by (simp add: size_field_example pad_def)
  have "oct2dec ''00000000144'' = 100" by code_simp
  then have o: "oct2dec (hdr_size ?h) = 100" by (simp add: oct2dec_size_example)
  have "spec_decode (''00000000144'' @ [NUL]) = 752" by code_simp
  then show ?thesis using f o by simp
qed

lemma linkname_field_example:
  "length n \<le> 100 \<Longrightarrow> length s \<le> 12 \<Longrightarrow> length t = 1 \<Longrightarrow> length l \<le> 100 \<Longrightarrow>
   linkname_field (example_header n s t l g) = pad 100 l"
proof -
  assume a: "length n \<le> 100" "length s \<le> 12" "length t = 1" "length l \<le> 100"
  have "drop 157 (example_header n s t l g) = drop 1 (drop 156 (example_header n s t l g))"
    by simp
  also have "\<dots> = drop 1 (pad 1 t @ pad 100 l @ pad 8 g @ pad 247 [])"
    using hdr_typeflag_example [of n s t l g] a by (simp add: hdr_typeflag_def field_ptr_def)
  finally show ?thesis using a by (simp add: linkname_field_def field_def length_pad)
qed

section \<open>The type check reads the link name\<close>

lemma is_regular_file_iff:
  assumes "length buffer = 512"
  shows "is_regular_file buffer = Inr () \<longleftrightarrow> take 2 (drop 156 buffer) = ''0'' @ [NUL]"
proof -
  have "c_str (drop 156 buffer) = ''0'' \<longleftrightarrow> take 2 (drop 156 buffer) = ''0'' @ [NUL]"
    using assms by (intro c_str_eq_iff) simp_all
  then show ?thesis
    by (simp add: is_regular_file_def strcmp_eq_0_iff hdr_typeflag_def field_ptr_def REG_FILE_def
          c_str_Cons c_str_Nil)
qed

lemma is_regular_file_other_type:
  assumes "length buffer = 512" "typeflag_field buffer \<noteq> REG_FILE"
  shows "is_regular_file buffer = Inl (UnsupportedType (char_value (buffer ! 156)))"
proof -
  have "take (1 + 1) (drop 156 buffer) = take 1 (drop 156 buffer) @ take 1 (drop 1 (drop 156 buffer))"
    by (rule take_add)
  then have "take 2 (drop 156 buffer) = typeflag_field buffer @ take 1 (drop 157 buffer)"
    by (simp add: typeflag_field_def field_def numeral_2_eq_2)
  moreover have "length (typeflag_field buffer) = length ''0''"
    using assms(1) by (simp add: typeflag_field_def field_def)
  then have "typeflag_field buffer @ take 1 (drop 157 buffer) = ''0'' @ [NUL]
      \<longleftrightarrow> typeflag_field buffer = ''0'' \<and> take 1 (drop 157 buffer) = [NUL]"
    by (intro append_eq_append_conv) simp
  ultimately have "take 2 (drop 156 buffer) \<noteq> ''0'' @ [NUL]"
    using assms(2) by (simp add: REG_FILE_def)
  then have "is_regular_file buffer \<noteq> Inr ()" using is_regular_file_iff [OF assms(1)] by simp
  then show ?thesis using assms(1)
    by (simp add: is_regular_file_def hdr_typeflag_def field_ptr_def split: if_splits)
qed

text \<open>
  C6 evaluated on the code: a header with the magic tag, the type flag \<open>'0'\<close> of a
  regular file and the link name \<open>x\<close>. The type check compares the string that starts at
  the type flag, which runs on into the link name, with \<open>"0"\<close>: the header is refused as
  "unsupported header type 48", the code of \<open>'0'\<close> itself, and nothing is listed.
\<close>

theorem regular_file_with_linkname_refused:
  "typeflag_field (example_header ''a'' ''00000000000'' ''0'' ''x'' ''ustar  '') = REG_FILE
   \<and> c_str (linkname_field (example_header ''a'' ''00000000000'' ''0'' ''x'' ''ustar  '')) = ''x''
   \<and> is_tar_archive (example_header ''a'' ''00000000000'' ''0'' ''x'' ''ustar  '') = Inr ()
   \<and> main (Suc 0) (example_header ''a'' ''00000000000'' ''0'' ''x'' ''ustar  '')
       [] LIST False (\<lambda>name. True)
     = Some (Inl (UnsupportedType 48,
         \<lparr>fin = \<lparr>data = example_header ''a'' ''00000000000'' ''0'' ''x'' ''ustar  '', pos = 512\<rparr>,
          files_found = [], first_empty = False, second_empty = False, blocks_read = 1,
          printed = [], warnings = [], disk = Map.empty\<rparr>))"
proof -
  let ?h = "example_header ''a'' ''00000000000'' ''0'' ''x'' ''ustar  ''"
  let ?p = "example_params 512 [] LIST"
  let ?w0 = "initial_walker ?p \<lparr>data = ?h, pos = 0\<rparr>"
  let ?w1 = "\<lparr>fin = \<lparr>data = ?h, pos = 512\<rparr>,
          files_found = [], first_empty = False, second_empty = False, blocks_read = 1,
          printed = [], warnings = [], disk = Map.empty\<rparr>"
  have l: "length ?h = 512" by (simp add: length_example_header)
  have z: "\<not> is_empty_block ?h" by (simp add: is_empty_block_example)
  have t: "hdr_typeflag ?h = pad 1 ''0'' @ pad 100 ''x'' @ pad 8 ''ustar  '' @ pad 247 []"
    by (simp add: hdr_typeflag_example)
  have tf: "typeflag_field ?h = REG_FILE"
    using t by (simp add: typeflag_field_def field_def hdr_typeflag_def field_ptr_def pad_def REG_FILE_def)
  have m: "is_tar_archive ?h = Inr ()" by (simp add: is_tar_archive_example)
  have g: "is_regular_file ?h = Inl (UnsupportedType 48)"
    by (simp add: is_regular_file_def t strcmp_eq_0_iff REG_FILE_def pad_def c_str_Cons c_str_Nil
          char_value_def)
  have r0: "fread_block (fin ?w0) = Some (?h, \<lparr>data = ?h, pos = 512\<rparr>)"
    using fread_block_only [OF l] by (simp add: initial_walker_def)
  have e: "process_entry ?p ?h (?w0\<lparr>fin := \<lparr>data = ?h, pos = 512\<rparr>,
              blocks_read := wrap_int (blocks_read ?w0 + 1)\<rparr>) = Inl (UnsupportedType 48, ?w1)"
    by (simp add: process_entry_def m g initial_walker_def example_params_def wrap_int_def)
  have s0: "loop_body ?p ?w0 = Exit (UnsupportedType 48) ?w1"
    unfolding loop_body_header [OF r0 z] e by simp
  have "read_archive (Suc 0) ?p \<lparr>data = ?h, pos = 0\<rparr> = Some (Inl (UnsupportedType 48, ?w1))"
    by (simp add: read_archive_def s0)
  then have "main (Suc 0) ?h [] LIST False (\<lambda>name. True) = Some (Inl (UnsupportedType 48, ?w1))"
    using l by (simp add: main_def get_archive_size_def example_params_def)
  moreover have "c_str (linkname_field ?h) = ''x''"
    using c_str_pad [of "''x''" 100 "[]"] by (simp add: linkname_field_example)
  ultimately show ?thesis using tf m by simp
qed

section \<open>Extraction writes the payload\<close>

lemma fread_block_in_range:
  assumes "0 \<le> pos f" "pos f + 512 \<le> int (length (data f))"
  shows "fread_block f = Some (take 512 (drop (nat (pos f)) (data f)), f\<lparr>pos := pos f + 512\<rparr>)"
  using assms by (simp add: fread_block_def BLOCK_SIZE_def)

lemma extract_loop_done: "\<not> i < bc \<Longrightarrow> extract_loop i bc bl f wr = Inr (f, wr)"
  by (subst extract_loop.simps) simp

lemma extract_loop_step:
  assumes "i < bc" "fread_block f = Some (buffer, f')"
  shows "extract_loop i bc bl f wr =
         extract_loop (wrap_int (i + 1)) bc bl f'
           (wr @ (if wrap_int (i + 1) = bc then take (nat bl) buffer else take 512 buffer))"
  using assms by (subst extract_loop.simps) simp

lemma extract_loop_short:
  assumes "i < bc" "fread_block f = None"
  shows "extract_loop i bc bl f wr = Inl (f, wr)"
  using assms by (subst extract_loop.simps) simp

lemma extract_loop_payload:
  assumes "0 \<le> i" "i < bc" "bc < 2 ^ 31" "0 \<le> bl" "bl \<le> 512"
      and "0 \<le> pos f" "pos f + 512 * (bc - i) \<le> int (length (data f))"
  shows "extract_loop i bc bl f wr =
           Inr (f\<lparr>pos := pos f + 512 * (bc - i)\<rparr>,
                wr @ take (nat (512 * (bc - i - 1) + bl)) (drop (nat (pos f)) (data f)))"
  using assms
proof (induction "nat (bc - i)" arbitrary: i f wr)
  case 0
  then show ?case by simp
next
  case (Suc d)
  let ?q = "nat (pos f)"
  let ?blk = "take 512 (drop ?q (data f))"
  let ?f' = "f\<lparr>pos := pos f + 512\<rparr>"
  have w: "wrap_int (i + 1) = i + 1"
    using Suc.prems by (intro wrap_int_id) simp_all
  have r: "fread_block f = Some (?blk, ?f')"
    using Suc.prems by (intro fread_block_in_range) simp_all
  have st: "extract_loop i bc bl f wr =
         extract_loop (i + 1) bc bl ?f' (wr @ (if i + 1 = bc then take (nat bl) ?blk else take 512 ?blk))"
    using extract_loop_step [OF Suc.prems(2) r, of bl wr] unfolding w .
  show ?case
  proof (cases "i + 1 = bc")
    case True
    have "nat bl \<le> 512" using Suc.prems(5) by simp
    then have t: "take (nat bl) ?blk = take (nat bl) (drop ?q (data f))"
      by (simp add: min_def)
    have dn: "extract_loop (i + 1) bc bl ?f' wr' = Inr (?f', wr')" for wr'
      using True by (intro extract_loop_done) simp
    have a1: "nat (512 * (bc - i - 1) + bl) = nat bl" using True by simp
    have a2: "pos f + 512 * (bc - i) = pos f + 512" using True by simp
    have "extract_loop i bc bl f wr = Inr (?f', wr @ take (nat bl) (drop ?q (data f)))"
      unfolding st using True dn t by (simp del: take_take)
    then show ?thesis unfolding a1 a2 .
  next
    case False
    then have lt: "i + 1 < bc" using Suc.prems(2) by simp
    have d: "d = nat (bc - (i + 1))" using Suc.hyps(2) by simp
    have ih: "extract_loop (i + 1) bc bl ?f' (wr @ ?blk) =
           Inr (?f'\<lparr>pos := pos ?f' + 512 * (bc - (i + 1))\<rparr>,
                (wr @ ?blk) @ take (nat (512 * (bc - (i + 1) - 1) + bl)) (drop (nat (pos ?f')) (data ?f')))"
      using Suc.prems lt by (intro Suc.hyps(1) [OF d]) simp_all
    have dq: "drop (nat (pos f + 512)) (data f) = drop 512 (drop ?q (data f))"
      using Suc.prems(6) by (simp add: nat_add_distrib add.commute)
    have m: "nat (512 * (bc - i - 1) + bl) = 512 + nat (512 * (bc - (i + 1) - 1) + bl)"
      using lt Suc.prems(4) by simp
    have "?blk @ take (nat (512 * (bc - (i + 1) - 1) + bl)) (drop 512 (drop ?q (data f)))
        = take (nat (512 * (bc - i - 1) + bl)) (drop ?q (data f))"
      unfolding m by (rule take_add [symmetric])
    then show ?thesis unfolding st using False ih dq by (simp add: algebra_simps)
  qed
qed

lemma extract_file_payload:
  assumes c: "can_create p (c_str (hdr_name buffer))"
      and s: "0 \<le> oct2dec (hdr_size buffer)" "oct2dec (hdr_size buffer) \<le> 2 ^ 40 - 512"
      and q: "0 \<le> pos (fin w)"
             "pos (fin w) + 512 * blocks_count_of (oct2dec (hdr_size buffer)) \<le> int (length (data (fin w)))"
  shows "extract_file p buffer w =
     Inr (w\<lparr>fin := (fin w)\<lparr>pos := pos (fin w) + 512 * blocks_count_of (oct2dec (hdr_size buffer))\<rparr>,
            disk := (disk w)(c_str (hdr_name buffer) \<mapsto>
               take (nat (oct2dec (hdr_size buffer))) (drop (nat (pos (fin w))) (data (fin w))))\<rparr>)"
proof -
  define sz where "sz = oct2dec (hdr_size buffer)"
  define bc where "bc = blocks_count_of sz"
  define bl where "bl = bytes_left_of sz"
  have r: "sz + 512 < 2 ^ 63" using s by (simp add: sz_def)
  have bq: "bc = (sz + 511) div 512"
    using s(1) r by (simp add: bc_def sz_def blocks_count_of_nonneg)
  have blq: "bl = sz - 512 * bc + 512"
    using s(1) r by (simp add: bl_def bq sz_def bytes_left_of_nonneg algebra_simps)
  have b: "512 * bc \<le> sz + 511" "sz + 511 < 512 * bc + 512" unfolding bq by auto
  have bcu: "bc < 2 ^ 31" using b(1) s(2) by (simp add: sz_def)
  have e: "extract_loop 0 bc bl (fin w) [] =
        Inr ((fin w)\<lparr>pos := pos (fin w) + 512 * bc\<rparr>,
             take (nat sz) (drop (nat (pos (fin w))) (data (fin w))))"
  proof (cases "0 < bc")
    case False
    then have "bc = 0" "sz = 0" using b s(1) by (auto simp: sz_def)
    then show ?thesis using extract_loop_done [of 0 bc bl "fin w" "[]"] by simp
  next
    case True
    have l: "0 \<le> bl" "bl \<le> 512" using b True unfolding blq by simp_all
    have "extract_loop 0 bc bl (fin w) [] =
           Inr ((fin w)\<lparr>pos := pos (fin w) + 512 * (bc - 0)\<rparr>,
                [] @ take (nat (512 * (bc - 0 - 1) + bl)) (drop (nat (pos (fin w))) (data (fin w))))"
      using True bcu l q by (intro extract_loop_payload) (simp_all add: bc_def sz_def)
    moreover have "512 * (bc - 0 - 1) + bl = sz" unfolding blq by simp
    ultimately show ?thesis by simp
  qed
  show ?thesis
    using c e by (simp add: extract_file_def Let_def sz_def [symmetric] bc_def [symmetric] bl_def [symmetric])
qed

lemma process_entry_extract:
  assumes "is_tar_archive buffer = Inr ()" "is_regular_file buffer = Inr ()"
      and "action p = EXTRACT"
      and "should_print_of (length (files_args p))
             (fst (mark_file (hdr_name buffer) (files_args p) (length (files_args p)) (files_found w)))"
  shows "process_entry p buffer w =
     extract_file p buffer
       (w\<lparr>files_found :=
            snd (mark_file (hdr_name buffer) (files_args p) (length (files_args p)) (files_found w)),
          printed := (if verbose p then printed w @ [c_str (hdr_name buffer)] else printed w)\<rparr>)"
proof -
  obtain hit found
    where m: "mark_file (hdr_name buffer) (files_args p) (length (files_args p)) (files_found w)
              = (hit, found)"
    by (cases "mark_file (hdr_name buffer) (files_args p) (length (files_args p)) (files_found w)")
  have "should_print_of (length (files_args p)) hit" using assms(4) m by simp
  then show ?thesis using assms(1-3) m by (simp add: process_entry_def Let_def)
qed

text \<open>
  C4, as the claim states it, fails: with the \<open>s\<close> payload bytes in the stream but the
  padding of the last block cut off, the read of that block is short and extraction ends
  with "unexpected EOF"; the output file, created before, holds none of the last block's
  bytes. Here the entry \<open>a\<close> has size 1 and the stream ends after its one payload byte.
\<close>

theorem extraction_needs_whole_blocks:
  "oct2dec (hdr_size (example_header ''a'' ''00000000001'' ''0'' [] ''ustar  '')) = 1
   \<and> drop 512 (example_header ''a'' ''00000000001'' ''0'' [] ''ustar  '' @ ''A'') = ''A''
   \<and> main (Suc 0) (example_header ''a'' ''00000000001'' ''0'' [] ''ustar  '' @ ''A'')
        [] EXTRACT False (\<lambda>name. True)
     = Some (Inl (UnexpectedEOF,
         \<lparr>fin = \<lparr>data = example_header ''a'' ''00000000001'' ''0'' [] ''ustar  '' @ ''A'',
                 pos = 512\<rparr>,
          files_found = [], first_empty = False, second_empty = False, blocks_read = 1,
          printed = [], warnings = [], disk = [''a'' \<mapsto> []]\<rparr>))"
proof -
  let ?h = "example_header ''a'' ''00000000001'' ''0'' [] ''ustar  ''"
  let ?d = "?h @ ''A''"
  let ?p = "example_params 513 [] EXTRACT"
  let ?w0 = "initial_walker ?p \<lparr>data = ?d, pos = 0\<rparr>"
  let ?w1 = "?w0\<lparr>fin := \<lparr>data = ?d, pos = 512\<rparr>, blocks_read := wrap_int (blocks_read ?w0 + 1)\<rparr>"
  let ?w2 = "\<lparr>fin = \<lparr>data = ?d, pos = 512\<rparr>,
          files_found = [], first_empty = False, second_empty = False, blocks_read = 1,
          printed = [], warnings = [], disk = [''a'' \<mapsto> []]\<rparr>"
  have l: "length ?h = 512" by (simp add: length_example_header)
  have z: "\<not> is_empty_block ?h" by (simp add: is_empty_block_example)
  have m: "is_tar_archive ?h = Inr ()" by (simp add: is_tar_archive_example)
  have g: "is_regular_file ?h = Inr ()" by (simp add: is_regular_file_example)
  have n: "c_str (hdr_name ?h) = ''a''" by (simp add: c_str_name_example)
  have "oct2dec ''00000000001'' = 1" by code_simp
  then have o: "oct2dec (hdr_size ?h) = 1" by (simp add: oct2dec_size_example)
  have b: "blocks_count_of 1 = 1" "bytes_left_of 1 = 1"
    by (simp_all add: blocks_count_of_def bytes_left_of_def wrap_long_def c_div_def BLOCK_SIZE_def)
  have r0: "fread_block (fin ?w0) = Some (?h, \<lparr>data = ?d, pos = 512\<rparr>)"
    using fread_block_first [OF l, of "''A''"] by (simp add: initial_walker_def)
  have r1: "fread_block \<lparr>data = ?d, pos = 512\<rparr> = None"
    by (simp add: fread_block_def BLOCK_SIZE_def l)
  have x: "extract_loop 0 1 1 \<lparr>data = ?d, pos = 512\<rparr> [] = Inl (\<lparr>data = ?d, pos = 512\<rparr>, [])"
    using r1 by (intro extract_loop_short) simp_all
  have e: "process_entry ?p ?h ?w1 = Inl (UnexpectedEOF, ?w2)"
    by (subst process_entry_extract)
       (simp_all add: m g n o b x extract_file_def example_params_def initial_walker_def
          should_print_of_def mark_file_def mark_file_loop.simps wrap_int_def)
  have s0: "loop_body ?p ?w0 = Exit UnexpectedEOF ?w2"
    unfolding loop_body_header [OF r0 z] e by simp
  have "read_archive (Suc 0) ?p \<lparr>data = ?d, pos = 0\<rparr> = Some (Inl (UnexpectedEOF, ?w2))"
    by (simp add: read_archive_def s0)
  then have "main (Suc 0) ?d [] EXTRACT False (\<lambda>name. True) = Some (Inl (UnexpectedEOF, ?w2))"
    using l by (simp add: main_def get_archive_size_def example_params_def)
  then show ?thesis using o l by simp
qed

text \<open>
  C4, amended: for an entry that passes the magic and the type check and is selected in
  extraction mode, whose output file can be created, whose size \<open>s\<close> is between 0 and
  \<open>2 ^ 40 - 512\<close> (the block counter of the loop is an \<open>int\<close>) and whose
  \<open>ceil (s / 512)\<close> payload blocks are in the stream in full, extraction succeeds, leaves
  the stream after the last payload block, and the output file holds exactly \<open>s\<close> bytes,
  the first \<open>s\<close> bytes that follow the header: none of the padding, and reading the
  output gives the payload back. No other file is changed.
\<close>

theorem extraction_writes_payload:
  assumes "is_tar_archive buffer = Inr ()" "is_regular_file buffer = Inr ()"
      and "action p = EXTRACT"
      and "should_print_of (length (files_args p))
             (fst (mark_file (hdr_name buffer) (files_args p) (length (files_args p)) (files_found w)))"
      and "can_create p (c_str (hdr_name buffer))"
      and "0 \<le> oct2dec (hdr_size buffer)" "oct2dec (hdr_size buffer) \<le> 2 ^ 40 - 512"
      and "0 \<le> pos (fin w)"
      and "pos (fin w) + 512 * blocks_count_of (oct2dec (hdr_size buffer)) \<le> int (length (data (fin w)))"
  shows "\<exists>w'. process_entry p buffer w = Inr w'
           \<and> disk w' (c_str (hdr_name buffer))
               = Some (take (nat (oct2dec (hdr_size buffer))) (drop (nat (pos (fin w))) (data (fin w))))
           \<and> length (take (nat (oct2dec (hdr_size buffer))) (drop (nat (pos (fin w))) (data (fin w))))
               = nat (oct2dec (hdr_size buffer))
           \<and> (\<forall>other. other \<noteq> c_str (hdr_name buffer) \<longrightarrow> disk w' other = disk w other)
           \<and> data (fin w') = data (fin w)
           \<and> pos (fin w') = pos (fin w) + 512 * blocks_count_of (oct2dec (hdr_size buffer))"
proof -
  define sz where "sz = oct2dec (hdr_size buffer)"
  let ?w1 = "w\<lparr>files_found :=
            snd (mark_file (hdr_name buffer) (files_args p) (length (files_args p)) (files_found w)),
          printed := (if verbose p then printed w @ [c_str (hdr_name buffer)] else printed w)\<rparr>"
  have "sz + 512 < 2 ^ 63" using assms(7) by (simp add: sz_def)
  then have "blocks_count_of sz = (sz + 511) div 512"
    using assms(6) by (simp add: sz_def blocks_count_of_nonneg)
  then have "sz \<le> 512 * blocks_count_of sz" by simp
  then have len: "nat sz \<le> length (drop (nat (pos (fin w))) (data (fin w)))"
    using assms(6,8,9) by (simp add: sz_def)
  have "process_entry p buffer w = extract_file p buffer ?w1"
    using assms(1-4) by (rule process_entry_extract)
  also have "\<dots> = Inr (?w1\<lparr>fin := (fin ?w1)\<lparr>pos := pos (fin ?w1) + 512 * blocks_count_of (oct2dec (hdr_size buffer))\<rparr>,
            disk := (disk ?w1)(c_str (hdr_name buffer) \<mapsto>
               take (nat (oct2dec (hdr_size buffer))) (drop (nat (pos (fin ?w1))) (data (fin ?w1))))\<rparr>)"
    using assms(5-9) by (intro extract_file_payload) simp_all
  finally show ?thesis using len by (simp add: sz_def min_def)
qed

theorem extraction_writes_payload_witness:
  "process_entry (example_params 1024 [] EXTRACT)
     (example_header ''a'' ''00000000003'' ''0'' [] ''ustar  '')
     \<lparr>fin = \<lparr>data = example_header ''a'' ''00000000003'' ''0'' [] ''ustar  ''
                     @ ''abc'' @ replicate 509 NUL, pos = 512\<rparr>,
      files_found = [], first_empty = False, second_empty = False, blocks_read = 1,
      printed = [], warnings = [], disk = Map.empty\<rparr>
   = Inr \<lparr>fin = \<lparr>data = example_header ''a'' ''00000000003'' ''0'' [] ''ustar  ''
                     @ ''abc'' @ replicate 509 NUL, pos = 1024\<rparr>,
      files_found = [], first_empty = False, second_empty = False, blocks_read = 1,
      printed = [], warnings = [], disk = [''a'' \<mapsto> ''abc'']\<rparr>"
proof -
  let ?h = "example_header ''a'' ''00000000003'' ''0'' [] ''ustar  ''"
  let ?d = "?h @ ''abc'' @ replicate 509 NUL"
  let ?p = "example_params 1024 [] EXTRACT"
  let ?w = "\<lparr>fin = \<lparr>data = ?d, pos = 512\<rparr>,
      files_found = [], first_empty = False, second_empty = False, blocks_read = 1,
      printed = [], warnings = [], disk = Map.empty\<rparr>"
  have l: "length ?h = 512" by (simp add: length_example_header)
  have m: "is_tar_archive ?h = Inr ()" by (simp add: is_tar_archive_example)
  have g: "is_regular_file ?h = Inr ()" by (simp add: is_regular_file_example)
  have n: "c_str (hdr_name ?h) = ''a''" by (simp add: c_str_name_example)
  have "oct2dec ''00000000003'' = 3" by code_simp
  then have o: "oct2dec (hdr_size ?h) = 3" by (simp add: oct2dec_size_example)
  have b: "blocks_count_of 3 = 1"
    by (simp add: blocks_count_of_def wrap_long_def c_div_def BLOCK_SIZE_def)
  have 3: "action ?p = EXTRACT" by (simp add: example_params_def)
  have 4: "should_print_of (length (files_args ?p))
             (fst (mark_file (hdr_name ?h) (files_args ?p) (length (files_args ?p)) (files_found ?w)))"
    by (simp add: example_params_def should_print_of_def)
  have 5: "can_create ?p (c_str (hdr_name ?h))" by (simp add: example_params_def)
  have 6: "0 \<le> oct2dec (hdr_size ?h)" "oct2dec (hdr_size ?h) \<le> 2 ^ 40 - 512" by (simp_all add: o)
  have 8: "0 \<le> pos (fin ?w)" by simp
  have 9: "pos (fin ?w) + 512 * blocks_count_of (oct2dec (hdr_size ?h)) \<le> int (length (data (fin ?w)))"
    by (simp add: o b l)
  have pl: "take 3 (drop 512 ?d) = ''abc''" by (simp add: l)
  obtain w' where w': "process_entry ?p ?h ?w = Inr w'"
      "disk w' (c_str (hdr_name ?h)) = Some (take (nat (oct2dec (hdr_size ?h))) (drop (nat (pos (fin ?w))) (data (fin ?w))))"
    using extraction_writes_payload [OF m g 3 4 5 6 8 9] by blast
  have e: "process_entry ?p ?h ?w = extract_file ?p ?h ?w"
    by (subst process_entry_extract [OF m g 3 4])
       (simp add: example_params_def mark_file_def mark_file_loop.simps)
  have "extract_file ?p ?h ?w =
     Inr (?w\<lparr>fin := (fin ?w)\<lparr>pos := pos (fin ?w) + 512 * blocks_count_of (oct2dec (hdr_size ?h))\<rparr>,
            disk := (disk ?w)(c_str (hdr_name ?h) \<mapsto>
               take (nat (oct2dec (hdr_size ?h))) (drop (nat (pos (fin ?w))) (data (fin ?w))))\<rparr>)"
    using 5 6 8 9 by (rule extract_file_payload)
  then show ?thesis using w' e by (simp add: n o b l)
qed

section \<open>A walk that never ends\<close>

text \<open>
  The size field \<open>".000"\<close> decodes to -1024, the block count is -1, and the skip seeks
  512 bytes backwards, to the header just read: the listing prints the name again in
  every round, and no amount of fuel is enough.
\<close>

lemma backward_skip_round:
  "loop_body (example_params 512 [] LIST)
     ((initial_walker (example_params 512 [] LIST)
        \<lparr>data = example_header ''a'' ''.000'' ''0'' [] ''ustar  '', pos = 0\<rparr>)
      \<lparr>printed := replicate k ''a''\<rparr>)
   = Next ((initial_walker (example_params 512 [] LIST)
        \<lparr>data = example_header ''a'' ''.000'' ''0'' [] ''ustar  '', pos = 0\<rparr>)
      \<lparr>printed := replicate (Suc k) ''a''\<rparr>)"
proof -
  let ?h = "example_header ''a'' ''.000'' ''0'' [] ''ustar  ''"
  let ?p = "example_params 512 [] LIST"
  let ?w = "(initial_walker ?p \<lparr>data = ?h, pos = 0\<rparr>)\<lparr>printed := replicate k ''a''\<rparr>"
  have l: "length ?h = 512" by (simp add: length_example_header)
  have z: "\<not> is_empty_block ?h" by (simp add: is_empty_block_example)
  have r: "fread_block (fin ?w) = Some (?h, \<lparr>data = ?h, pos = 512\<rparr>)"
    using fread_block_only [OF l] by (simp add: initial_walker_def)
  have o: "oct2dec ''.000'' = - 1024" by code_simp
  have b: "blocks_count_of (- 1024) = - 1"
    by (simp add: blocks_count_of_def wrap_long_def c_div_def BLOCK_SIZE_def)
  have s: "oct2dec (hdr_size ?h) = - 1024" using o by (simp add: oct2dec_size_example)
  have e: "process_entry ?p ?h (?w\<lparr>fin := \<lparr>data = ?h, pos = 512\<rparr>,
              blocks_read := wrap_int (blocks_read ?w + 1)\<rparr>)
         = Inr (?w\<lparr>blocks_read := 1, printed := replicate k ''a'' @ [''a'']\<rparr>)"
    by (subst process_entry_example_list)
       (simp_all add: example_params_def initial_walker_def o b fseek_cur_def wrap_long_def wrap_int_def)
  have "replicate k ''a'' @ [''a''] = replicate (Suc k) ''a''"
    by (simp add: replicate_append_same)
  then show ?thesis
    unfolding loop_body_header [OF r z] e
    by (simp add: ftell_def example_params_def initial_walker_def s b wrap_long_def wrap_int_def)
qed

lemma backward_skip_never_ends:
  "read_archive fuel (example_params 512 [] LIST)
     \<lparr>data = example_header ''a'' ''.000'' ''0'' [] ''ustar  '', pos = 0\<rparr> = None"
proof -
  let ?h = "example_header ''a'' ''.000'' ''0'' [] ''ustar  ''"
  let ?p = "example_params 512 [] LIST"
  let ?w = "initial_walker ?p \<lparr>data = ?h, pos = 0\<rparr>"
  have "read_loop n ?p (?w\<lparr>printed := replicate k ''a''\<rparr>) = None" for n k
  proof (induction n arbitrary: k)
    case 0
    show ?case by simp
  next
    case (Suc n)
    show ?case unfolding read_loop.simps backward_skip_round using Suc [of "Suc k"] by simp
  qed
  from this [of fuel 0] have "read_loop fuel ?p ?w = None"
    by (simp add: initial_walker_def)
  then show ?thesis by (simp add: read_archive_def)
qed

section \<open>The size of the last write\<close>

text \<open>
  The last \<open>fwrite\<close> of \<open>extract_file\<close> is given \<open>bytes_left\<close> as its size. Whenever the
  loop runs at all, that is for a positive block count, this is a number from 1 to 512,
  whatever \<open>long\<close> the size field decoded to: the write stays inside the buffer.
\<close>

lemma wrap_long_minus_one: "wrap_long (wrap_long x - 1) = wrap_long (x - 1)"
proof -
  have "((x + 2 ^ 63) mod 2 ^ 64 - 1) mod 2 ^ 64 = (x + 2 ^ 63 - 1) mod (2 ^ 64 :: int)"
    by (rule mod_diff_left_eq)
  then show ?thesis by (simp add: wrap_long_def algebra_simps)
qed

lemma c_div_512_pos: "0 < c_div x 512 \<Longrightarrow> 512 \<le> x"
proof (rule ccontr)
  assume p: "0 < c_div x 512" and n: "\<not> 512 \<le> x"
  show False
  proof (cases "0 \<le> x")
    case True
    then have "c_div x 512 = x div 512" by (simp add: c_div_nonneg)
    then show False using p n True by simp
  next
    case False
    then have "c_div x 512 = - (\<bar>x\<bar> div 512)" by (simp add: c_div_def)
    moreover have "0 \<le> \<bar>x\<bar> div 512" by simp
    ultimately show False using p by linarith
  qed
qed

lemma bytes_left_when_used:
  assumes "- (2 ^ 63) \<le> s" "s < 2 ^ 63" "0 < blocks_count_of s"
  shows "0 < bytes_left_of s \<and> bytes_left_of s \<le> 512"
proof -
  define X where "X = wrap_long (s + 511)"
  have "wrap_long (wrap_long (s + 512) - 1) = wrap_long (s + 512 - 1)"
    by (rule wrap_long_minus_one)
  then have bX: "blocks_count_of s = c_div X 512"
    by (simp add: blocks_count_of_def BLOCK_SIZE_def X_def add.commute)
  then have X512: "512 \<le> X" using assms(3) c_div_512_pos by simp
  have fit: "s + 511 < 2 ^ 63"
  proof (rule ccontr)
    assume "\<not> s + 511 < 2 ^ 63"
    then have "2 ^ 63 \<le> s + 511" "s + 511 < 2 ^ 64" using assms(2) by simp_all
    then have "(s + 511 + 2 ^ 63) mod 2 ^ 64 = s + 511 + 2 ^ 63 - 2 ^ 64"
      by (intro int_mod_pos_eq [where q = 1]) simp_all
    then have "X = s + 511 - 2 ^ 64" by (simp add: X_def wrap_long_def)
    then show False using X512 assms(2) by simp
  qed
  then have Xs: "X = s + 511" using assms(1) unfolding X_def by (intro wrap_long_id) simp_all
  have s1: "1 \<le> s" using X512 Xs by simp
  define q where "q = (s + 511) div 512"
  have bq: "blocks_count_of s = q" using bX Xs s1 by (simp add: q_def c_div_nonneg)
  have q: "512 * q \<le> s + 511" "s + 511 < 512 * q + 512" "1 \<le> q"
    using s1 by (auto simp: q_def)
  have 1: "wrap_long (q - 1) = q - 1" using q fit by (intro wrap_long_id) simp_all
  have 2: "wrap_long ((q - 1) * 512) = (q - 1) * 512" using q fit by (intro wrap_long_id) simp_all
  have 3: "wrap_long (s - (q - 1) * 512) = s - (q - 1) * 512"
    using q fit by (intro wrap_long_id) simp_all
  have "bytes_left_of s = s - (q - 1) * 512"
    unfolding bytes_left_of_def bq BLOCK_SIZE_def 1 2 3 ..
  then show ?thesis using q by simp
qed

lemma wrap_long_range: "- (2 ^ 63) \<le> wrap_long x \<and> wrap_long x < 2 ^ 63"
proof -
  have "0 \<le> (x + 2 ^ 63) mod 2 ^ 64" "(x + 2 ^ 63) mod 2 ^ 64 < (2 ^ 64 :: int)"
    by simp_all
  then show ?thesis unfolding wrap_long_def by simp
qed

lemma oct2dec_loop_range:
  "- (2 ^ 63) \<le> d \<Longrightarrow> d < 2 ^ 63 \<Longrightarrow>
   - (2 ^ 63) \<le> oct2dec_loop s i d r \<and> oct2dec_loop s i d r < 2 ^ 63"
proof (induction i arbitrary: d r)
  case 0
  then show ?case by simp
next
  case (Suc i)
  show ?case
    unfolding oct2dec_loop.simps
    using wrap_long_range [of "d + wrap_long ((char_value (s ! i) - 48) * r)"]
    by (intro Suc.IH) simp_all
qed

lemma oct2dec_range: "- (2 ^ 63) \<le> oct2dec p \<and> oct2dec p < 2 ^ 63"
  unfolding oct2dec_def by (rule oct2dec_loop_range) simp_all

lemma bytes_left_of_size_field:
  "0 < blocks_count_of (oct2dec p) \<Longrightarrow>
   0 < bytes_left_of (oct2dec p) \<and> bytes_left_of (oct2dec p) \<le> 512"
  using oct2dec_range [of p] by (intro bytes_left_when_used) simp_all

end
